theory Spec2Isabelle
  imports Complex_Main "HOL-Library.Multiset"
begin

section \<open>Python values and errors\<close>

text \<open>
  The development embeds three methods of \<open>SearchPipe\<close> in \<open>singlem/pipe.py\<close>:
  \<open>_median_taxonomy\<close>, \<open>_seqs_to_counts_and_taxonomy\<close> and \<open>_write_jplace_from_infos\<close>.
  Every exception the source can raise is a value of \<open>error\<close>; a function that can raise
  returns \<open>error + 'a\<close> with \<open>Inl\<close> for the exception.
\<close>

datatype error =
    IndexError
  | KeyError
  | TypeError
  | ZeroDivisionError
  | VersionException
  | FormatException

text \<open>
  A Python 2 dictionary is an association list with distinct keys, kept in insertion order.
  Python 2 iterates a dictionary in hash order, which the language leaves open: wherever the
  order of iteration can reach the result, the function takes the iteration as a parameter
  \<open>iteritems\<close> that rearranges the items, and the theorems ask only that it is a
  rearrangement.
\<close>

type_synonym ('k, 'v) dict = "('k \<times> 'v) list"

definition iteration_order :: "(('k, 'v) dict \<Rightarrow> ('k, 'v) dict) \<Rightarrow> bool" where
  "iteration_order iteritems \<longleftrightarrow> (\<forall>d. mset (iteritems d) = mset d)"

section \<open>Consensus taxonomy\<close>

subsection \<open>String operations\<close>

text \<open>\<open>s.split(c)\<close> for a one-character separator: the result is never empty.\<close>

fun split :: "char \<Rightarrow> string \<Rightarrow> string list" where
  "split c [] = [[]]"
| "split c (x # xs) =
     (if x = c then [] # split c xs
      else (case split c xs of [] \<Rightarrow> [[x]] | w # ws \<Rightarrow> (x # w) # ws))"

text \<open>\<open>s.strip()\<close> removes the ASCII whitespace of Python 2 from both ends.\<close>

definition whitespace :: "char \<Rightarrow> bool" where
  "whitespace c \<longleftrightarrow> c \<in> set [CHR 0x20, CHR 0x09, CHR 0x0A, CHR 0x0D, CHR 0x0B, CHR 0x0C]"

definition strip :: "string \<Rightarrow> string" where
  "strip s = rev (dropWhile whitespace (rev (dropWhile whitespace s)))"

text \<open>
  \<open>sep.join(xs)\<close>. The list \<open>median_tax\<close> of the source may hold \<open>None\<close> (the initial
  value of \<open>max_tax\<close>), on which \<open>join\<close> raises \<open>TypeError\<close>.
\<close>

fun join :: "string \<Rightarrow> string list \<Rightarrow> string" where
  "join sep [] = []"
| "join sep [x] = x"
| "join sep (x # y # ys) = x @ sep @ join sep (y # ys)"

fun py_join :: "string \<Rightarrow> string option list \<Rightarrow> error + string" where
  "py_join sep xs = (if None \<in> set xs then Inl TypeError else Inr (join sep (map the xs)))"

subsection \<open>\<open>_median_taxonomy\<close>\<close>

text \<open>
  \<open>levels_to_counts[i][tax] += 1\<close>, and \<open>= 1\<close> on \<open>KeyError\<close>: an existing label keeps
  its place, a new label is added.
\<close>

fun incr :: "string \<Rightarrow> (string, nat) dict \<Rightarrow> (string, nat) dict" where
  "incr tax [] = [(tax, 1)]"
| "incr tax ((k, c) # d) = (if k = tax then (k, c + 1) # d else (k, c) # incr tax d)"

text \<open>
  The inner loop \<open>for i, tax in enumerate(tax_string.split(';'))\<close>. The index \<open>i\<close> walks
  the labels and the levels side by side; \<open>i >= len(levels_to_counts)\<close> holds exactly
  when the levels are used up, and then a new empty dictionary is appended.
\<close>

fun count_labels :: "string list \<Rightarrow> (string, nat) dict list \<Rightarrow> (string, nat) dict list" where
  "count_labels [] levels = levels"
| "count_labels (tax # rest) [] = incr (strip tax) [] # count_labels rest []"
| "count_labels (tax # rest) (d # levels) = incr (strip tax) d # count_labels rest levels"

text \<open>The body of the outer loop \<open>for tax_string in taxonomies\<close>, and the loop.\<close>

definition count_tax_string :: "string \<Rightarrow> (string, nat) dict list \<Rightarrow> (string, nat) dict list" where
  "count_tax_string tax_string levels = count_labels (split CHR '';'' tax_string) levels"

definition levels_to_counts :: "string list \<Rightarrow> (string, nat) dict list" where
  "levels_to_counts taxonomies = fold count_tax_string taxonomies []"

text \<open>
  The search for the most frequent label of one level: \<open>count > max_count\<close> is strict, so
  the first label in iteration order with the highest count is kept.
\<close>

definition level_max :: "(string, nat) dict \<Rightarrow> nat \<times> string option" where
  "level_max items =
     fold (\<lambda>(tax, count) (max_count, max_tax).
             if count > max_count then (count, Some tax) else (max_count, max_tax))
          items (0, None)"

text \<open>
  The loop over the levels. \<open>float(max_count) / len(taxonomies) >= 0.5\<close> is written on
  the integers as \<open>len(taxonomies) \<le> 2 * max_count\<close> (the two agree for every count
  below \<open>2 ^ 53\<close>, where the conversion to float is exact); the division raises
  \<open>ZeroDivisionError\<close> when \<open>taxonomies\<close> is empty. \<open>break\<close> ends the loop.
\<close>

fun median_loop ::
  "((string, nat) dict \<Rightarrow> (string, nat) dict) \<Rightarrow> nat \<Rightarrow> (string, nat) dict list
     \<Rightarrow> error + string option list" where
  "median_loop iteritems n [] = Inr []"
| "median_loop iteritems n (level_counts # levels) =
     (case level_max (iteritems level_counts) of (max_count, max_tax) \<Rightarrow>
        if n = 0 then Inl ZeroDivisionError
        else if n \<le> 2 * max_count then
          (case median_loop iteritems n levels of
             Inl e \<Rightarrow> Inl e
           | Inr median_tax \<Rightarrow> Inr (max_tax # median_tax))
        else Inr [])"

text \<open>The list \<open>median_tax\<close> when the loop ends, and the string the method returns.\<close>

definition median_tax ::
  "((string, nat) dict \<Rightarrow> (string, nat) dict) \<Rightarrow> string list \<Rightarrow> error + string option list" where
  "median_tax iteritems taxonomies =
     median_loop iteritems (length taxonomies) (levels_to_counts taxonomies)"

definition median_taxonomy ::
  "((string, nat) dict \<Rightarrow> (string, nat) dict) \<Rightarrow> string list \<Rightarrow> error + string" where
  "median_taxonomy iteritems taxonomies =
     (case median_tax iteritems taxonomies of
        Inl e \<Rightarrow> Inl e
      | Inr labels \<Rightarrow> py_join ''; '' labels)"

subsection \<open>Frequencies of labels, stated on the taxonomy strings\<close>

text \<open>
  The labels at one rank depth, one for each taxonomy string that is long enough to have a
  label there; the frequency of a label at a depth; and the number of depths at which any
  string has a label.
\<close>

definition labels_at :: "string list \<Rightarrow> nat \<Rightarrow> string list" where
  "labels_at taxonomies depth =
     concat (map (\<lambda>tax_string. let labels = split CHR '';'' tax_string
                               in if depth < length labels then [strip (labels ! depth)] else [])
                 taxonomies)"

definition freq :: "string list \<Rightarrow> nat \<Rightarrow> string \<Rightarrow> nat" where
  "freq taxonomies depth label = count_list (labels_at taxonomies depth) label"

definition depth_of :: "string list \<Rightarrow> nat" where
  "depth_of taxonomies = fold max (map (\<lambda>t. length (split CHR '';'' t)) taxonomies) 0"

text \<open>Reading a dictionary of counts: the count of a label, \<open>0\<close> for a label it lacks.\<close>

definition cnt :: "(string, nat) dict \<Rightarrow> string \<Rightarrow> nat" where
  "cnt d l = (case map_of d l of None \<Rightarrow> 0 | Some c \<Rightarrow> c)"

definition level_cnt :: "(string, nat) dict list \<Rightarrow> nat \<Rightarrow> string \<Rightarrow> nat" where
  "level_cnt L d l = (if d < length L then cnt (L ! d) l else 0)"

text \<open>
  The invariant of every dictionary of \<open>levels_to_counts\<close>: no key twice, every count
  positive, every key a stripped label without the separator.
\<close>

definition label :: "string \<Rightarrow> bool" where
  "label k \<longleftrightarrow> CHR '';'' \<notin> set k \<and> strip k = k"

definition good :: "(string, nat) dict \<Rightarrow> bool" where
  "good d \<longleftrightarrow> distinct (map fst d) \<and> (\<forall>(k, c) \<in> set d. 0 < c \<and> label k)"

section \<open>Aggregation of windows into OTUs\<close>

subsection \<open>Data\<close>

text \<open>
  The sequence objects \<open>_seqs_to_counts_and_taxonomy\<close> reads: their class lives outside
  \<open>pipe.py\<close>, which uses the attributes \<open>name\<close>, \<open>aligned_sequence\<close> and
  \<open>aligned_length\<close> and the method \<open>coverage_increment()\<close>; the value the method returns
  is a field here. Coverage is a Python float; it is a rational here, so the rounding of
  float addition is left out.
\<close>

record sequence =
  seq_name :: string
  seq_aligned_sequence :: string
  seq_coverage_increment :: rat
  seq_aligned_length :: int

text \<open>The local classes \<open>CollectedInfo\<close> and \<open>Info\<close>.\<close>

record collected_info =
  ci_count :: int
  ci_taxonomies :: "string list"
  ci_names :: "string list"
  ci_coverage :: rat
  ci_aligned_lengths :: "int list"

record info =
  info_seq :: string
  info_count :: int
  info_taxonomy :: string
  info_names :: "string list"
  info_coverage :: rat
  info_aligned_lengths :: "int list"

definition CollectedInfo :: collected_info where
  "CollectedInfo = \<lparr>ci_count = 0, ci_taxonomies = [], ci_names = [], ci_coverage = 0,
                     ci_aligned_lengths = []\<rparr>"

subsection \<open>Dictionary operations\<close>

text \<open>\<open>d[k] = v\<close>: an existing key keeps its place, a new key is added.\<close>

fun setitem :: "'k \<Rightarrow> 'v \<Rightarrow> ('k, 'v) dict \<Rightarrow> ('k, 'v) dict" where
  "setitem k v [] = [(k, v)]"
| "setitem k v ((k', v') # d) = (if k' = k then (k, v) # d else (k', v') # setitem k v d)"

subsection \<open>\<open>_seqs_to_counts_and_taxonomy\<close>\<close>

text \<open>
  The body of the first loop, for one sequence \<open>s\<close>. \<open>taxonomies\<close> is the hash of the
  taxonomy file, a dictionary from read name to taxonomy string: a missing name gives the
  empty string, and \<open>if taxonomies:\<close> is false exactly for the empty dictionary. The
  source mutates the \<open>CollectedInfo\<close> object held by the dictionary; here the updated
  object is stored back under its key.
\<close>

definition collect ::
  "(string, string) dict \<Rightarrow> sequence \<Rightarrow> (string, collected_info) dict
     \<Rightarrow> (string, collected_info) dict" where
  "collect taxonomies s seq_to_collected_info =
     (let tax = (case map_of taxonomies (seq_name s) of None \<Rightarrow> [] | Some t \<Rightarrow> t);
          collected_info =
            (case map_of seq_to_collected_info (seq_aligned_sequence s) of
               None \<Rightarrow> CollectedInfo
             | Some c \<Rightarrow> c)
      in setitem (seq_aligned_sequence s)
           (collected_info
              \<lparr>ci_count := ci_count collected_info + 1,
               ci_taxonomies :=
                 (if taxonomies \<noteq> [] then ci_taxonomies collected_info @ [tax]
                  else ci_taxonomies collected_info),
               ci_names := ci_names collected_info @ [seq_name s],
               ci_coverage := ci_coverage collected_info + seq_coverage_increment s,
               ci_aligned_lengths := ci_aligned_lengths collected_info @ [seq_aligned_length s]\<rparr>)
           seq_to_collected_info)"

definition seq_to_collected_info ::
  "(string, string) dict \<Rightarrow> sequence list \<Rightarrow> (string, collected_info) dict" where
  "seq_to_collected_info taxonomies sequences = fold (collect taxonomies) sequences []"

text \<open>
  The second loop yields one \<open>Info\<close> for each item of the dictionary. In first-hit mode
  \<open>collected_info.taxonomies[0]\<close> raises \<open>IndexError\<close> on an empty list; the taxonomy
  strings are strings here, so the test \<open>tax is None\<close> of the source never holds. The
  caller collects the generator with \<open>list(...)\<close>, so an exception leaves no record.
\<close>

definition Info ::
  "((string, nat) dict \<Rightarrow> (string, nat) dict) \<Rightarrow> bool \<Rightarrow> string \<Rightarrow> collected_info
     \<Rightarrow> error + info" where
  "Info iteritems_level use_first_taxonomy seq collected_info =
     (case (if use_first_taxonomy then
              (case ci_taxonomies collected_info of [] \<Rightarrow> Inl IndexError | tax # _ \<Rightarrow> Inr tax)
            else median_taxonomy iteritems_level (ci_taxonomies collected_info)) of
        Inl e \<Rightarrow> Inl e
      | Inr tax \<Rightarrow>
          Inr \<lparr>info_seq = seq, info_count = ci_count collected_info, info_taxonomy = tax,
               info_names = ci_names collected_info, info_coverage = ci_coverage collected_info,
               info_aligned_lengths = ci_aligned_lengths collected_info\<rparr>)"

fun yield_infos ::
  "((string, nat) dict \<Rightarrow> (string, nat) dict) \<Rightarrow> bool \<Rightarrow> (string, collected_info) dict
     \<Rightarrow> error + info list" where
  "yield_infos iteritems_level use_first_taxonomy [] = Inr []"
| "yield_infos iteritems_level use_first_taxonomy ((seq, collected_info) # items) =
     (case Info iteritems_level use_first_taxonomy seq collected_info of
        Inl e \<Rightarrow> Inl e
      | Inr i \<Rightarrow>
          (case yield_infos iteritems_level use_first_taxonomy items of
             Inl e \<Rightarrow> Inl e
           | Inr infos \<Rightarrow> Inr (i # infos)))"

definition seqs_to_counts_and_taxonomy ::
  "((string, collected_info) dict \<Rightarrow> (string, collected_info) dict)
     \<Rightarrow> ((string, nat) dict \<Rightarrow> (string, nat) dict)
     \<Rightarrow> sequence list \<Rightarrow> (string, string) dict \<Rightarrow> bool \<Rightarrow> error + info list" where
  "seqs_to_counts_and_taxonomy iteritems iteritems_level sequences taxonomies use_first_taxonomy =
     yield_infos iteritems_level use_first_taxonomy
       (iteritems (seq_to_collected_info taxonomies sequences))"

text \<open>The records of one group: the input records with a given window, in input order.\<close>

definition group :: "sequence list \<Rightarrow> string \<Rightarrow> sequence list" where
  "group sequences seq = filter (\<lambda>s. seq_aligned_sequence s = seq) sequences"

text \<open>
  The invariant of the first loop after the records \<open>sequences\<close>: the keys are the windows
  seen, each once, and each entry holds the data of its group.
\<close>

definition collected ::
  "(string, string) dict \<Rightarrow> sequence list \<Rightarrow> (string, collected_info) dict \<Rightarrow> bool" where
  "collected taxonomies sequences d \<longleftrightarrow>
     distinct (map fst d) \<and> fst ` set d = seq_aligned_sequence ` set sequences \<and>
     (\<forall>(k, c) \<in> set d.
        ci_count c = int (length (group sequences k)) \<and>
        ci_names c = map seq_name (group sequences k) \<and>
        ci_aligned_lengths c = map seq_aligned_length (group sequences k) \<and>
        length (ci_taxonomies c) = (if taxonomies \<noteq> [] then length (group sequences k) else 0))"

section \<open>Rewriting placements\<close>

subsection \<open>JSON values as Python objects\<close>

text \<open>
  What \<open>json.load\<close> returns: \<open>None\<close>, a boolean, a number, a string, a list or a
  dictionary. Numbers are integers here (a JSON number with a fraction is left out), and a
  dictionary is an association list with distinct keys, iterated in the order of the list.
  Python 2 loads a JSON string as a unicode object, which equals the byte string of the
  same ASCII text; strings are lists of characters here.
\<close>

datatype json =
    JNull
  | JBool bool
  | JNum int
  | JStr string
  | JArr "json list"
  | JObj "(string \<times> json) list"

text \<open>
  \<open>obj[key]\<close> for a string key: \<open>KeyError\<close> on a dictionary without the key,
  \<open>TypeError\<close> on anything that is not a dictionary.
\<close>

fun py_getitem :: "json \<Rightarrow> string \<Rightarrow> error + json" where
  "py_getitem (JObj d) key = (case map_of d key of None \<Rightarrow> Inl KeyError | Some v \<Rightarrow> Inr v)"
| "py_getitem _ key = Inl TypeError"

text \<open>
  \<open>for x in obj\<close>: the elements of a list, the keys of a dictionary, the characters of a
  string; \<open>TypeError\<close> otherwise. \<open>len(obj)\<close> is defined on the same three kinds of
  object and is the number of items iterated.
\<close>

fun py_iter :: "json \<Rightarrow> error + json list" where
  "py_iter (JArr xs) = Inr xs"
| "py_iter (JObj d) = Inr (map (\<lambda>(k, v). JStr k) d)"
| "py_iter (JStr s) = Inr (map (\<lambda>c. JStr [c]) s)"
| "py_iter _ = Inl TypeError"

text \<open>
  \<open>key in obj\<close> for a string key: a key of a dictionary, an element of a list, a
  substring of a string; \<open>TypeError\<close> otherwise.
\<close>

fun substring :: "string \<Rightarrow> string \<Rightarrow> bool" where
  "substring key [] = (key = [])"
| "substring key (c # s) = (take (length key) (c # s) = key \<or> substring key s)"

fun py_contains :: "string \<Rightarrow> json \<Rightarrow> error + bool" where
  "py_contains key (JObj d) = Inr (key \<in> fst ` set d)"
| "py_contains key (JArr xs) = Inr (JStr key \<in> set xs)"
| "py_contains key (JStr s) = Inr (substring key s)"
| "py_contains key _ = Inl TypeError"

text \<open>
  \<open>a += b\<close>: numbers add (a boolean counts as 0 or 1), strings concatenate, a list is
  extended by the items of any iterable; \<open>TypeError\<close> otherwise.
\<close>

fun py_iadd :: "json \<Rightarrow> json \<Rightarrow> error + json" where
  "py_iadd (JNum a) (JNum b) = Inr (JNum (a + b))"
| "py_iadd (JNum a) (JBool b) = Inr (JNum (a + of_bool b))"
| "py_iadd (JBool a) (JNum b) = Inr (JNum (of_bool a + b))"
| "py_iadd (JBool a) (JBool b) = Inr (JNum (of_bool a + of_bool b))"
| "py_iadd (JStr a) (JStr b) = Inr (JStr (a @ b))"
| "py_iadd (JArr a) b = (case py_iter b of Inl e \<Rightarrow> Inl e | Inr xs \<Rightarrow> Inr (JArr (a @ xs)))"
| "py_iadd _ _ = Inl TypeError"

subsection \<open>Read names\<close>

text \<open>
  \<open>another_regex.sub('', s)\<close> with the pattern \<open>_\d+$\<close>: a final underscore followed by
  one or more ASCII digits is removed; \<open>$\<close> also matches before a newline that ends the
  string, and that newline stays.
\<close>

definition digit :: "char \<Rightarrow> bool" where
  "digit c \<longleftrightarrow> c \<in> set ''0123456789''"

definition strip_frame :: "string \<Rightarrow> string" where
  "strip_frame s =
     (case dropWhile digit (rev s) of
        [] \<Rightarrow> s
      | c # rest \<Rightarrow> if c = CHR ''_'' \<and> takeWhile digit (rev s) \<noteq> [] then rev rest else s)"

definition another_regex_sub :: "string \<Rightarrow> string" where
  "another_regex_sub s =
     (if s \<noteq> [] \<and> last s = CHR 0x0A then strip_frame (butlast s) @ [CHR 0x0A]
      else strip_frame s)"

text \<open>
  \<open>OrfMUtils.un_orfm_name\<close> is defined outside \<open>pipe.py\<close>; it is the parameter
  \<open>un_orfm_name\<close>, a function on strings.
\<close>

definition real_name :: "(string \<Rightarrow> string) \<Rightarrow> string \<Rightarrow> string" where
  "real_name un_orfm_name name = another_regex_sub (un_orfm_name name)"

subsection \<open>\<open>_write_jplace_from_infos\<close>\<close>

text \<open>
  The index from read name to its \<open>Info\<close>: a later \<open>Info\<close> with the same name replaces
  an earlier one.
\<close>

definition name_to_info :: "info list \<Rightarrow> (string, info) dict" where
  "name_to_info infos =
     fold (\<lambda>info d. fold (\<lambda>name d. setitem name info d) (info_names info) d) infos []"

text \<open>
  The body of the inner loop, for one element \<open>name_and_count\<close> of \<open>placement['nm']\<close>.
  The state is the pair of \<open>sequence_to_count\<close> and \<open>sequence_to_example_p\<close>. A name
  that is not a string is a \<open>TypeError\<close> (the regular expression needs a string).
  The variable \<open>count\<close> of the source is \<open>multiplicity\<close> here.
\<close>

fun count_name ::
  "(string \<Rightarrow> string) \<Rightarrow> (string, info) dict \<Rightarrow> json \<Rightarrow> json
     \<Rightarrow> (string, json) dict \<times> (string, json) dict
     \<Rightarrow> error + (string, json) dict \<times> (string, json) dict" where
  "count_name un_orfm_name index placement name_and_count
       (sequence_to_count, sequence_to_example_p) =
     (case py_iter name_and_count of
        Inl e \<Rightarrow> Inl e
      | Inr [JStr name, multiplicity] \<Rightarrow>
          (case map_of index (real_name un_orfm_name name) of
             None \<Rightarrow> Inl KeyError
           | Some info \<Rightarrow>
               (case (case map_of sequence_to_count (info_seq info) of
                        None \<Rightarrow> Inr multiplicity
                      | Some old \<Rightarrow> py_iadd old multiplicity) of
                  Inl e \<Rightarrow> Inl e
                | Inr new \<Rightarrow>
                    (case info_names info of
                       [] \<Rightarrow> Inl IndexError
                     | first # _ \<Rightarrow>
                         if real_name un_orfm_name name = first then
                           (case py_getitem placement ''p'' of
                              Inl e \<Rightarrow> Inl e
                            | Inr p \<Rightarrow>
                                Inr (setitem (info_seq info) new sequence_to_count,
                                     setitem (info_seq info) p sequence_to_example_p))
                         else Inr (setitem (info_seq info) new sequence_to_count,
                                   sequence_to_example_p))))
      | Inr [_, _] \<Rightarrow> Inl TypeError
      | Inr _ \<Rightarrow> Inl FormatException)"

fun count_names ::
  "(string \<Rightarrow> string) \<Rightarrow> (string, info) dict \<Rightarrow> json \<Rightarrow> json list
     \<Rightarrow> (string, json) dict \<times> (string, json) dict
     \<Rightarrow> error + (string, json) dict \<times> (string, json) dict" where
  "count_names un_orfm_name index placement [] state = Inr state"
| "count_names un_orfm_name index placement (name_and_count # rest) state =
     (case count_name un_orfm_name index placement name_and_count state of
        Inl e \<Rightarrow> Inl e
      | Inr state' \<Rightarrow> count_names un_orfm_name index placement rest state')"

text \<open>The body of the outer loop, for one placement, and the loop.\<close>

definition count_placement ::
  "(string \<Rightarrow> string) \<Rightarrow> (string, info) dict \<Rightarrow> json
     \<Rightarrow> (string, json) dict \<times> (string, json) dict
     \<Rightarrow> error + (string, json) dict \<times> (string, json) dict" where
  "count_placement un_orfm_name index placement state =
     (case py_contains ''nm'' placement of
        Inl e \<Rightarrow> Inl e
      | Inr False \<Rightarrow> Inl FormatException
      | Inr True \<Rightarrow>
          (case py_getitem placement ''nm'' of
             Inl e \<Rightarrow> Inl e
           | Inr nm \<Rightarrow>
               (case py_iter nm of
                  Inl e \<Rightarrow> Inl e
                | Inr names_and_counts \<Rightarrow>
                    count_names un_orfm_name index placement names_and_counts state)))"

fun count_placements ::
  "(string \<Rightarrow> string) \<Rightarrow> (string, info) dict \<Rightarrow> json list
     \<Rightarrow> (string, json) dict \<times> (string, json) dict
     \<Rightarrow> error + (string, json) dict \<times> (string, json) dict" where
  "count_placements un_orfm_name index [] state = Inr state"
| "count_placements un_orfm_name index (placement # rest) state =
     (case count_placement un_orfm_name index placement state of
        Inl e \<Rightarrow> Inl e
      | Inr state' \<Rightarrow> count_placements un_orfm_name index rest state')"

text \<open>
  The dictionary \<open>new_placements\<close>, one entry for each item of
  \<open>sequence_to_example_p\<close>, keyed by the sequence. It is a dictionary, so the order in
  which \<open>items()\<close> visits \<open>sequence_to_example_p\<close> does not show in it.
\<close>

fun new_placements :: "(string, json) dict \<Rightarrow> (string, json) dict \<Rightarrow> error + (string, json) dict" where
  "new_placements sequence_to_count [] = Inr []"
| "new_placements sequence_to_count ((sequence, example_p) # items) =
     (case map_of sequence_to_count sequence of
        None \<Rightarrow> Inl KeyError
      | Some multiplicity \<Rightarrow>
          (case new_placements sequence_to_count items of
             Inl e \<Rightarrow> Inl e
           | Inr d \<Rightarrow>
               Inr ((sequence, JObj [(''nm'', JArr [JArr [JStr sequence, multiplicity]]),
                                     (''p'', example_p)]) # d)))"

text \<open>
  Everything before \<open>json.dump\<close>: the document that will be written, or the exception
  raised. \<open>jplace['version'] != 3\<close> holds for every value but the number 3.
\<close>

definition rewrite :: "(string \<Rightarrow> string) \<Rightarrow> json \<Rightarrow> info list \<Rightarrow> error + json" where
  "rewrite un_orfm_name jplace infos =
     (case py_getitem jplace ''version'' of
        Inl e \<Rightarrow> Inl e
      | Inr version \<Rightarrow>
          if version \<noteq> JNum 3 then Inl VersionException
          else
            (case py_getitem jplace ''placements'' of
               Inl e \<Rightarrow> Inl e
             | Inr placements \<Rightarrow>
                 (case py_iter placements of
                    Inl e \<Rightarrow> Inl e
                  | Inr ps \<Rightarrow>
                      (case count_placements un_orfm_name (name_to_info infos) ps ([], []) of
                         Inl e \<Rightarrow> Inl e
                       | Inr (sequence_to_count, sequence_to_example_p) \<Rightarrow>
                           (case new_placements sequence_to_count sequence_to_example_p of
                              Inl e \<Rightarrow> Inl e
                            | Inr d \<Rightarrow>
                                (case jplace of
                                   JObj members \<Rightarrow> Inr (JObj (setitem ''placements'' (JObj d) members))
                                 | _ \<Rightarrow> Inl TypeError))))))"

text \<open>
  The method. The input stream is the document \<open>json.load\<close> has parsed; the output stream
  is the list of documents written to it, and \<open>json.dump\<close>, the last statement, adds one.
  The text \<open>json.dump\<close> produces is not modelled.
\<close>

definition write_jplace_from_infos ::
  "(string \<Rightarrow> string) \<Rightarrow> json \<Rightarrow> info list \<Rightarrow> json list \<Rightarrow> (error + unit) \<times> json list" where
  "write_jplace_from_infos un_orfm_name jplace infos output_jplace_io =
     (case rewrite un_orfm_name jplace infos of
        Inl e \<Rightarrow> (Inl e, output_jplace_io)
      | Inr document \<Rightarrow> (Inr (), output_jplace_io @ [document]))"

subsection \<open>Notions for the claims on the rewriting\<close>

text \<open>
  The placements of a document (the elements of its \<open>placements\<close> array), and whether a
  placement has an \<open>nm\<close> field.
\<close>

definition placements_of :: "json \<Rightarrow> json list" where
  "placements_of jplace =
     (case py_getitem jplace ''placements'' of Inr (JArr ps) \<Rightarrow> ps | _ \<Rightarrow> [])"

definition has_nm :: "json \<Rightarrow> bool" where
  "has_nm placement = (case placement of JObj d \<Rightarrow> ''nm'' \<in> fst ` set d | _ \<Rightarrow> False)"

text \<open>
  The multiplicity of an \<open>nm\<close> entry \<open>[name, multiplicity]\<close>, the sum over the \<open>nm\<close>
  entries of a placement, and the sum over all placements of a document. The rewritten
  document holds its placements in a dictionary, so the placements of a document are the
  elements of an array or the values of a dictionary.
\<close>

fun multiplicity :: "json \<Rightarrow> int" where
  "multiplicity (JArr [name, JNum c]) = c"
| "multiplicity _ = 0"

definition placement_multiplicity :: "json \<Rightarrow> int" where
  "placement_multiplicity placement =
     (case py_getitem placement ''nm'' of
        Inr (JArr names_and_counts) \<Rightarrow> sum_list (map multiplicity names_and_counts)
      | _ \<Rightarrow> 0)"

definition placement_entries :: "json \<Rightarrow> json list" where
  "placement_entries document =
     (case py_getitem document ''placements'' of
        Inr (JArr ps) \<Rightarrow> ps
      | Inr (JObj d) \<Rightarrow> map snd d
      | _ \<Rightarrow> [])"

definition total_multiplicity :: "json \<Rightarrow> int" where
  "total_multiplicity document =
     sum_list (map placement_multiplicity (placement_entries document))"

text \<open>
  A well-formed document: \<open>placements\<close> is an array of objects, the \<open>nm\<close> field of each
  is an array, and each of its entries is a pair of a string and a number.
\<close>

fun well_formed_entry :: "json \<Rightarrow> bool" where
  "well_formed_entry (JArr [JStr name, JNum c]) = True"
| "well_formed_entry _ = False"

definition well_formed_placement :: "json \<Rightarrow> bool" where
  "well_formed_placement placement =
     (case py_getitem placement ''nm'' of
        Inr (JArr names_and_counts) \<Rightarrow> list_all well_formed_entry names_and_counts
      | _ \<Rightarrow> False)"

definition well_formed :: "json \<Rightarrow> bool" where
  "well_formed jplace =
     (case py_getitem jplace ''placements'' of
        Inr (JArr ps) \<Rightarrow> list_all well_formed_placement ps
      | _ \<Rightarrow> False)"

text \<open>The read names of a document, in document order.\<close>

fun entry_names :: "json \<Rightarrow> string list" where
  "entry_names (JArr [JStr name, c]) = [name]"
| "entry_names _ = []"

definition placement_names :: "json \<Rightarrow> string list" where
  "placement_names placement =
     (case py_getitem placement ''nm'' of
        Inr (JArr names_and_counts) \<Rightarrow> concat (map entry_names names_and_counts)
      | _ \<Rightarrow> [])"

definition names_of :: "json \<Rightarrow> string list" where
  "names_of jplace = concat (map placement_names (placements_of jplace))"

text \<open>
  \<open>real_name == info.names[0]\<close>: the read is the first contributing read of its OTU.
\<close>

definition first_read :: "info \<Rightarrow> string \<Rightarrow> bool" where
  "first_read info r = (case info_names info of [] \<Rightarrow> False | first # _ \<Rightarrow> r = first)"

text \<open>
  Every read of the document is indexed, and the OTU sequence it belongs to is also the
  sequence of some read of the document that is the first contributing read of its OTU.
\<close>

definition representatives_placed :: "(string \<Rightarrow> string) \<Rightarrow> json \<Rightarrow> info list \<Rightarrow> bool" where
  "representatives_placed un_orfm_name jplace infos =
     list_all
       (\<lambda>name.
          case map_of (name_to_info infos) (real_name un_orfm_name name) of
            None \<Rightarrow> False
          | Some info \<Rightarrow>
              list_ex
                (\<lambda>name'.
                   case map_of (name_to_info infos) (real_name un_orfm_name name') of
                     None \<Rightarrow> False
                   | Some info' \<Rightarrow>
                       info_seq info' = info_seq info
                       \<and> first_read info' (real_name un_orfm_name name'))
                (names_of jplace))
       (names_of jplace)"

text \<open>
  Proof notions: the number a count holds, the sum of the counts of
  \<open>sequence_to_count\<close>, and a dictionary of counts with distinct keys and numbers only.
\<close>

definition num_of :: "json \<Rightarrow> int" where
  "num_of v = (case v of JNum c \<Rightarrow> c | _ \<Rightarrow> 0)"

definition num_at :: "(string, json) dict \<Rightarrow> string \<Rightarrow> int" where
  "num_at d k = (case map_of d k of None \<Rightarrow> 0 | Some v \<Rightarrow> num_of v)"

definition total :: "(string, json) dict \<Rightarrow> int" where
  "total d = (\<Sum>(k, v)\<leftarrow>d. num_of v)"

definition nice :: "(string, json) dict \<Rightarrow> bool" where
  "nice d \<longleftrightarrow> distinct (map fst d) \<and> (\<forall>(k, v) \<in> set d. \<exists>c. v = JNum c)"

text \<open>
  The invariant of the two loops over the placements, after the read names \<open>N\<close>: the
  counts are numbers under distinct keys, every sequence with an example placement has a
  count, every sequence with a count is the sequence of a read seen, and every read seen
  that is the first read of its OTU has given its OTU an example placement.
\<close>

definition tracks ::
  "(string \<Rightarrow> string) \<Rightarrow> (string, info) dict \<Rightarrow> string list
     \<Rightarrow> (string, json) dict \<times> (string, json) dict \<Rightarrow> bool" where
  "tracks un_orfm_name index N state \<longleftrightarrow>
     nice (fst state) \<and> distinct (map fst (snd state)) \<and>
     fst ` set (snd state) \<subseteq> fst ` set (fst state) \<and>
     (\<forall>k \<in> fst ` set (fst state).
        \<exists>n \<in> set N. \<exists>i. map_of index (real_name un_orfm_name n) = Some i \<and> info_seq i = k) \<and>
     (\<forall>n \<in> set N. \<forall>i. map_of index (real_name un_orfm_name n) = Some i \<longrightarrow>
        first_read i (real_name un_orfm_name n) \<longrightarrow> info_seq i \<in> fst ` set (snd state))"

section \<open>Proofs\<close>

subsection \<open>Strings\<close>

lemma split_nonempty: "split c s \<noteq> []"
  by (induction s) (auto split: list.splits)

lemma split_no_sep: "w \<in> set (split c s) \<Longrightarrow> c \<notin> set w"
proof (induction s arbitrary: w)
  case Nil
  then show ?case by simp
next
  case (Cons x xs)
  then show ?case by (cases "split c xs") (auto split: if_splits)
qed

lemma set_strip: "set (strip s) \<subseteq> set s"
proof -
  have "set (rev (dropWhile whitespace (rev (dropWhile whitespace s))))
          \<subseteq> set (dropWhile whitespace s)"
    using set_dropWhileD[of _ whitespace "rev (dropWhile whitespace s)"] by auto
  also have "\<dots> \<subseteq> set s" using set_dropWhileD[of _ whitespace s] by auto
  finally show ?thesis by (simp add: strip_def)
qed

lemma dropWhile_hd_id: "xs = [] \<or> \<not> P (hd xs) \<Longrightarrow> dropWhile P xs = xs"
  by (cases xs) auto

lemma strip_strip: "strip (strip s) = strip s"
proof -
  define a where "a = dropWhile whitespace s"
  define b where "b = dropWhile whitespace (rev a)"
  have s: "strip s = rev b" by (simp add: strip_def a_def b_def)
  have a_hd: "a = [] \<or> \<not> whitespace (hd a)" unfolding a_def using hd_dropWhile by blast
  have b_hd: "b = [] \<or> \<not> whitespace (hd b)" unfolding b_def using hd_dropWhile by blast
  have "rev b = [] \<or> \<not> whitespace (hd (rev b))"
  proof (cases "b = []")
    case True
    then show ?thesis by simp
  next
    case False
    obtain us where us: "rev a = us @ b" unfolding b_def
      by (metis takeWhile_dropWhile_id)
    then have a: "a = rev b @ rev us" by (metis rev_append rev_rev_ident)
    with False have "hd a = hd (rev b)" by simp
    moreover have "a \<noteq> []" using a False by simp
    ultimately show ?thesis using a_hd by simp
  qed
  then have 1: "dropWhile whitespace (rev b) = rev b" by (rule dropWhile_hd_id)
  have 2: "dropWhile whitespace b = b" using b_hd by (rule dropWhile_hd_id)
  show ?thesis unfolding s by (simp add: strip_def 1 2)
qed

lemma label_strip_split: "w \<in> set (split CHR '';'' s) \<Longrightarrow> label (strip w)"
  using split_no_sep[of w "CHR '';''" s] set_strip[of w] by (auto simp: label_def strip_strip)


lemma strip_ws_prefix: "\<forall>c \<in> set pre. whitespace c \<Longrightarrow> strip (pre @ w) = strip w"
  by (simp add: strip_def)

lemma split_no_sep_id: "c \<notin> set a \<Longrightarrow> split c a = [a]"
  by (induction a) auto

lemma split_append_sep: "c \<notin> set a \<Longrightarrow> split c (a @ c # b) = a # split c b"
  by (induction a) auto

lemma join_Cons2: "ws \<noteq> [] \<Longrightarrow> join ''; '' (x # ws) = x @ CHR '';'' # (CHR '' '' # join ''; '' ws)"
  by (cases ws) simp_all

lemma split_join_labels:
  "ws \<noteq> [] \<Longrightarrow> \<forall>w \<in> set ws. label w \<Longrightarrow> \<forall>c \<in> set pre. whitespace c \<and> c \<noteq> CHR '';''
     \<Longrightarrow> map strip (split CHR '';'' (pre @ join ''; '' ws)) = ws"
proof (induction ws arbitrary: pre)
  case Nil
  then show ?case by simp
next
  case (Cons x ws)
  have lx: "label x" using Cons.prems(2) by simp
  have nosep: "CHR '';'' \<notin> set (pre @ x)"
    using Cons.prems(3) lx unfolding label_def by auto
  have "strip (pre @ x) = strip x"
    using Cons.prems(3) by (intro strip_ws_prefix) blast
  then have sx: "strip (pre @ x) = x" using lx unfolding label_def by simp
  show ?case
  proof (cases "ws = []")
    case True
    have "split CHR '';'' (pre @ x) = [pre @ x]" using nosep by (rule split_no_sep_id)
    then show ?thesis using True sx by simp
  next
    case False
    have ws: "whitespace CHR '' ''" unfolding whitespace_def by simp
    have "map strip (split CHR '';'' ([CHR '' ''] @ join ''; '' ws)) = ws"
    proof (rule Cons.IH[OF False])
      show "\<forall>w \<in> set ws. label w" using Cons.prems(2) by simp
      show "\<forall>c \<in> set [CHR '' '']. whitespace c \<and> c \<noteq> CHR '';''" using ws by simp
    qed
    then have ih: "map strip (split CHR '';'' (CHR '' '' # join ''; '' ws)) = ws" by simp
    have "pre @ join ''; '' (x # ws) = (pre @ x) @ CHR '';'' # (CHR '' '' # join ''; '' ws)"
      by (simp only: join_Cons2[OF False] append_assoc)
    then have "split CHR '';'' (pre @ join ''; '' (x # ws))
        = (pre @ x) # split CHR '';'' (CHR '' '' # join ''; '' ws)"
      by (simp only: split_append_sep[OF nosep])
    then show ?thesis by (simp only: list.map sx ih)
  qed
qed

subsection \<open>Counting labels\<close>

lemma cnt_incr: "cnt (incr t d) l = cnt d l + (if l = t then 1 else 0)"
  by (induction t d rule: incr.induct) (auto simp: cnt_def)

lemma fst_set_incr: "fst ` set (incr t d) = insert t (fst ` set d)"
  by (induction t d rule: incr.induct) auto

lemma good_incr: "good d \<Longrightarrow> label t \<Longrightarrow> good (incr t d)"
proof (induction t d rule: incr.induct)
  case (1 tax)
  then show ?case by (simp add: good_def)
next
  case (2 tax k c d)
  then have g: "good d" by (auto simp: good_def)
  show ?case
  proof (cases "k = tax")
    case True
    with 2 show ?thesis by (auto simp: good_def)
  next
    case False
    have "good (incr tax d)" using 2 False g by simp
    moreover have "k \<notin> fst ` set (incr tax d)"
      using 2(2) False by (auto simp: fst_set_incr good_def)
    ultimately show ?thesis using 2(2) False by (auto simp: good_def)
  qed
qed

lemma length_count_labels: "length (count_labels ps L) = max (length ps) (length L)"
  by (induction ps L rule: count_labels.induct) auto

lemma good_count_labels:
  "\<forall>d \<in> set L. good d \<Longrightarrow> \<forall>p \<in> set ps. label (strip p) \<Longrightarrow> \<forall>d \<in> set (count_labels ps L). good d"
proof (induction ps L rule: count_labels.induct)
  case (2 tax rest)
  have "good []" by (simp add: good_def)
  then have "good (incr (strip tax) [])" using 2 by (intro good_incr) auto
  with 2 show ?case by simp
qed (auto intro: good_incr)

lemma level_cnt_simps:
  "level_cnt [] d l = 0"
  "level_cnt (x # L) 0 l = cnt x l"
  "level_cnt (x # L) (Suc d) l = level_cnt L d l"
  by (simp_all add: level_cnt_def)

lemma level_cnt_count_labels:
  "level_cnt (count_labels ps L) d l =
     level_cnt L d l + (if d < length ps \<and> strip (ps ! d) = l then 1 else 0)"
proof (induction ps L arbitrary: d rule: count_labels.induct)
  case (1 levels)
  then show ?case by simp
next
  case (2 tax rest)
  show ?case
  proof (cases d)
    case 0
    then show ?thesis by (auto simp: level_cnt_simps cnt_def)
  next
    case (Suc d')
    with 2[of d'] show ?thesis by (simp add: level_cnt_simps)
  qed
next
  case (3 tax rest dd levels)
  show ?case
  proof (cases d)
    case 0
    then show ?thesis by (simp add: level_cnt_simps cnt_incr)
  next
    case (Suc d')
    with 3[of d'] show ?thesis by (simp add: level_cnt_simps)
  qed
qed

lemma level_cnt_count_tax_string:
  "level_cnt (count_tax_string t L) d l =
     level_cnt L d l + (if d < length (split CHR '';'' t) \<and> strip (split CHR '';'' t ! d) = l then 1 else 0)"
  unfolding count_tax_string_def by (rule level_cnt_count_labels)

lemma length_count_tax_string:
  "length (count_tax_string t L) = max (length (split CHR '';'' t)) (length L)"
  unfolding count_tax_string_def by (rule length_count_labels)

lemma good_count_tax_string:
  "\<forall>d \<in> set L. good d \<Longrightarrow> \<forall>d \<in> set (count_tax_string t L). good d"
  unfolding count_tax_string_def
  by (rule good_count_labels) (auto intro: label_strip_split)

lemma freq_Cons:
  "freq (t # ts) d l =
     (if d < length (split CHR '';'' t) \<and> strip (split CHR '';'' t ! d) = l then 1 else 0) + freq ts d l"
  by (simp add: freq_def labels_at_def Let_def)

lemma fold_levels_cnt:
  "level_cnt (fold count_tax_string ts L) d l = level_cnt L d l + freq ts d l"
proof (induction ts arbitrary: L)
  case Nil
  then show ?case by (simp add: freq_def labels_at_def)
next
  case (Cons t ts)
  have "level_cnt (fold count_tax_string (t # ts) L) d l
      = level_cnt (count_tax_string t L) d l + freq ts d l"
    using Cons.IH[of "count_tax_string t L"] by simp
  then show ?case by (simp only: level_cnt_count_tax_string freq_Cons add.assoc)
qed

lemma fold_levels_length:
  "length (fold count_tax_string ts L)
     = fold max (map (\<lambda>t. length (split CHR '';'' t)) ts) (length L)"
proof (induction ts arbitrary: L)
  case (Cons t ts)
  have "length (fold count_tax_string (t # ts) L)
      = fold max (map (\<lambda>t. length (split CHR '';'' t)) ts) (length (count_tax_string t L))"
    using Cons.IH[of "count_tax_string t L"] by simp
  then show ?case by (simp add: length_count_tax_string)
qed simp

lemma fold_levels_good:
  "\<forall>d \<in> set L. good d \<Longrightarrow> \<forall>d \<in> set (fold count_tax_string ts L). good d"
proof (induction ts arbitrary: L)
  case (Cons t ts)
  have "\<forall>d \<in> set (count_tax_string t L). good d"
    by (rule good_count_tax_string) (rule Cons.prems)
  then have "\<forall>d \<in> set (fold count_tax_string ts (count_tax_string t L)). good d"
    by (rule Cons.IH)
  then show ?case by simp
qed simp

lemma levels_length: "length (levels_to_counts ts) = depth_of ts"
  by (simp add: levels_to_counts_def fold_levels_length depth_of_def)

lemma levels_cnt: "d < depth_of ts \<Longrightarrow> cnt (levels_to_counts ts ! d) l = freq ts d l"
  using fold_levels_cnt[of ts "[]" d l] levels_length[of ts]
  by (simp add: levels_to_counts_def level_cnt_def)

lemma levels_good: "\<forall>d \<in> set (levels_to_counts ts). good d"
  unfolding levels_to_counts_def by (rule fold_levels_good) simp

lemma depth_of_Nil: "depth_of [] = 0"
  by (simp add: depth_of_def)

subsection \<open>The most frequent label of a level\<close>

lemma level_max_fold:
  assumes "fold (\<lambda>(tax, count) (max_count, max_tax).
             if count > max_count then (count, Some tax) else (max_count, max_tax)) xs (m0 :: nat, w0 :: string option) = (m, w)"
  shows "m0 \<le> m \<and> (\<forall>(k, c) \<in> set xs. c \<le> m) \<and> ((m = m0 \<and> w = w0) \<or> (\<exists>l. w = Some l \<and> (l, m) \<in> set xs))"
  using assms
proof (induction xs arbitrary: m0 w0)
  case Nil
  then show ?case by simp
next
  case (Cons x xs)
  obtain k c where x: "x = (k, c)" by (cases x)
  show ?case
  proof (cases "c > m0")
    case True
    with Cons.prems x have "fold (\<lambda>(tax, count) (max_count, max_tax).
             if count > max_count then (count, Some tax) else (max_count, max_tax)) xs (c, Some k) = (m, w)"
      by simp
    from Cons.IH[OF this] True x show ?thesis by auto
  next
    case False
    with Cons.prems x have "fold (\<lambda>(tax, count) (max_count, max_tax).
             if count > max_count then (count, Some tax) else (max_count, max_tax)) xs (m0, w0) = (m, w)"
      by simp
    from Cons.IH[OF this] False x show ?thesis by auto
  qed
qed

lemma level_max_props:
  assumes "level_max xs = (m, w)"
  shows "\<forall>(k, c) \<in> set xs. c \<le> m" and "0 < m \<Longrightarrow> \<exists>l. w = Some l \<and> (l, m) \<in> set xs"
  using level_max_fold[OF assms[unfolded level_max_def]] by auto

lemma cnt_good: "good d \<Longrightarrow> (l, c) \<in> set d \<Longrightarrow> cnt d l = c"
  by (simp add: cnt_def good_def)

lemma cnt_le: "\<forall>(k, c) \<in> set d. c \<le> m \<Longrightarrow> cnt d l \<le> m"
  by (auto simp: cnt_def split: option.splits dest!: map_of_SomeD)

lemma iteration_order_set: "iteration_order it \<Longrightarrow> set (it d) = set d"
  unfolding iteration_order_def by (metis set_mset_mset)

lemma level_max_dict:
  assumes "iteration_order it" and "good d" and "level_max (it d) = (m, w)"
  shows "\<forall>l. cnt d l \<le> m" and "0 < m \<Longrightarrow> \<exists>l. w = Some l \<and> cnt d l = m \<and> label l"
proof -
  have s: "set (it d) = set d" using assms(1) by (rule iteration_order_set)
  from level_max_props(1)[OF assms(3)] s show "\<forall>l. cnt d l \<le> m" by (auto intro: cnt_le)
  assume "0 < m"
  from level_max_props(2)[OF assms(3) this] obtain l where "w = Some l" "(l, m) \<in> set d"
    using s by auto
  moreover from this assms(2) have "label l" by (auto simp: good_def)
  ultimately show "\<exists>l. w = Some l \<and> cnt d l = m \<and> label l" using cnt_good[OF assms(2)] by auto
qed

subsection \<open>The loop over the levels\<close>

lemma median_loop_char:
  assumes it: "iteration_order it" and n: "0 < n"
  shows "\<forall>d \<in> set L. good d \<Longrightarrow>
     \<exists>ws. median_loop it n L = Inr (map Some ws) \<and> length ws \<le> length L \<and> (\<forall>w \<in> set ws. label w) \<and>
       (\<forall>i < length ws. (\<forall>l. cnt (L ! i) l \<le> cnt (L ! i) (ws ! i)) \<and> n \<le> 2 * cnt (L ! i) (ws ! i)) \<and>
       (length ws < length L \<longrightarrow> (\<forall>l. 2 * cnt (L ! length ws) l < n))"
proof (induction L)
  case Nil
  have "median_loop it n [] = Inr (map Some [])" by simp
  then show ?case by fastforce
next
  case (Cons d L)
  have gd: "good d" using Cons.prems by simp
  obtain m w where mw: "level_max (it d) = (m, w)" by (cases "level_max (it d)")
  have le: "\<forall>l. cnt d l \<le> m" using level_max_dict(1)[OF it gd mw] .
  show ?case
  proof (cases "n \<le> 2 * m")
    case True
    then have "0 < m" using n by simp
    from level_max_dict(2)[OF it gd mw this]
    obtain l0 where l0: "w = Some l0" "cnt d l0 = m" "label l0" by blast
    from Cons.IH Cons.prems obtain ws where
      ws: "median_loop it n L = Inr (map Some ws)" "length ws \<le> length L" "\<forall>w \<in> set ws. label w"
        "\<forall>i < length ws. (\<forall>l. cnt (L ! i) l \<le> cnt (L ! i) (ws ! i)) \<and> n \<le> 2 * cnt (L ! i) (ws ! i)"
        "length ws < length L \<longrightarrow> (\<forall>l. 2 * cnt (L ! length ws) l < n)"
      by auto
    have r: "median_loop it n (d # L) = Inr (map Some (l0 # ws))"
      using mw True n l0(1) ws(1) by simp
    have idx: "\<forall>i < length (l0 # ws). (\<forall>l. cnt ((d # L) ! i) l \<le> cnt ((d # L) ! i) ((l0 # ws) ! i))
                 \<and> n \<le> 2 * cnt ((d # L) ! i) ((l0 # ws) ! i)"
    proof (intro allI impI)
      fix i assume i: "i < length (l0 # ws)"
      show "(\<forall>l. cnt ((d # L) ! i) l \<le> cnt ((d # L) ! i) ((l0 # ws) ! i))
                 \<and> n \<le> 2 * cnt ((d # L) ! i) ((l0 # ws) ! i)"
      proof (cases i)
        case 0
        then show ?thesis using le l0(2) True by simp
      next
        case (Suc j)
        then have "j < length ws" using i by simp
        then show ?thesis using ws(4) Suc by simp
      qed
    qed
    have stop: "length (l0 # ws) < length (d # L) \<longrightarrow> (\<forall>l. 2 * cnt ((d # L) ! length (l0 # ws)) l < n)"
      using ws(5) by simp
    have "length (l0 # ws) \<le> length (d # L)" using ws(2) by simp
    moreover have "\<forall>w \<in> set (l0 # ws). label w" using ws(3) l0(3) by simp
    ultimately show ?thesis using r idx stop by blast
  next
    case False
    then have r: "median_loop it n (d # L) = Inr (map Some [])" using mw n by simp
    have "\<forall>l. 2 * cnt d l < n"
    proof
      fix l
      have "cnt d l \<le> m" using le by simp
      then show "2 * cnt d l < n" using False by simp
    qed
    then show ?thesis using r by fastforce
  qed
qed

lemma py_join_Some: "py_join sep (map Some ws) = Inr (join sep ws)"
  by (simp add: comp_def)

lemma median_tax_char:
  assumes it: "iteration_order it"
  shows "\<exists>ws. median_tax it ts = Inr (map Some ws) \<and> median_taxonomy it ts = Inr (join ''; '' ws) \<and>
       length ws \<le> depth_of ts \<and> (\<forall>w \<in> set ws. label w) \<and>
       (\<forall>d < length ws. (\<forall>l. freq ts d l \<le> freq ts d (ws ! d)) \<and> length ts \<le> 2 * freq ts d (ws ! d)) \<and>
       (length ws < depth_of ts \<longrightarrow> (\<forall>l. 2 * freq ts (length ws) l < length ts))"
proof (cases "ts = []")
  case True
  then have "median_tax it ts = Inr (map Some [])"
    by (simp add: median_tax_def levels_to_counts_def)
  moreover from this have "median_taxonomy it ts = Inr (join ''; '' [])"
    by (simp add: median_taxonomy_def)
  ultimately show ?thesis using True by (fastforce simp: depth_of_Nil)
next
  case False
  then have n: "0 < length ts" by simp
  from median_loop_char[OF it n levels_good, of ts]
  obtain ws where
    ws: "median_loop it (length ts) (levels_to_counts ts) = Inr (map Some ws)"
      "length ws \<le> length (levels_to_counts ts)" "\<forall>w \<in> set ws. label w"
      "\<forall>i < length ws. (\<forall>l. cnt (levels_to_counts ts ! i) l \<le> cnt (levels_to_counts ts ! i) (ws ! i))
            \<and> length ts \<le> 2 * cnt (levels_to_counts ts ! i) (ws ! i)"
      "length ws < length (levels_to_counts ts) \<longrightarrow> (\<forall>l. 2 * cnt (levels_to_counts ts ! length ws) l < length ts)"
    by blast
  have mt: "median_tax it ts = Inr (map Some ws)" using ws(1) by (simp add: median_tax_def)
  have mtx: "median_taxonomy it ts = Inr (join ''; '' ws)"
    unfolding median_taxonomy_def mt by (simp only: sum.case py_join_Some)
  have len: "length ws \<le> depth_of ts" using ws(2) by (simp add: levels_length)
  have idx: "\<forall>d < length ws. (\<forall>l. freq ts d l \<le> freq ts d (ws ! d)) \<and> length ts \<le> 2 * freq ts d (ws ! d)"
  proof (intro allI impI)
    fix d assume d: "d < length ws"
    then have dd: "d < depth_of ts" using len by simp
    from ws(4) d have "(\<forall>l. cnt (levels_to_counts ts ! d) l \<le> cnt (levels_to_counts ts ! d) (ws ! d))
            \<and> length ts \<le> 2 * cnt (levels_to_counts ts ! d) (ws ! d)" by blast
    then show "(\<forall>l. freq ts d l \<le> freq ts d (ws ! d)) \<and> length ts \<le> 2 * freq ts d (ws ! d)"
      by (simp add: levels_cnt[OF dd])
  qed
  have stop: "length ws < depth_of ts \<longrightarrow> (\<forall>l. 2 * freq ts (length ws) l < length ts)"
  proof
    assume a: "length ws < depth_of ts"
    then have "\<forall>l. 2 * cnt (levels_to_counts ts ! length ws) l < length ts"
      using ws(5) by (simp add: levels_length)
    then show "\<forall>l. 2 * freq ts (length ws) l < length ts" by (simp add: levels_cnt[OF a])
  qed
  show ?thesis using mt mtx len ws(3) idx stop by blast
qed

lemma iteration_order_id: "iteration_order (\<lambda>d. d)"
  by (simp add: iteration_order_def)

subsection \<open>Claims on the consensus taxonomy\<close>

text \<open>The definitions a concrete evaluation of the consensus unfolds.\<close>

lemmas median_eval = labels_at_def freq_def depth_of_def median_tax_def median_taxonomy_def
  levels_to_counts_def count_tax_string_def level_max_def strip_def whitespace_def




text \<open>
  C7 as stated: at a depth where the plurality label's share is exactly 50 percent, that
  label is kept. In the first group the consensus reaches depth 1, where four of the eight
  reads have a label and \<open>b\<close> is the label of two of them, exactly half of the reads with
  a label at that depth and more than any other label; the source divides by the eight reads
  of the group, and depth 1 is dropped. In the second group \<open>x\<close> has exactly half of the
  reads at depth 1, of the labelled reads and of the group alike, and is not kept, because
  the consensus has stopped at depth 0, where no label has half.
\<close>

theorem median_taxonomy_boundary_share_counterexample:
  "labels_at [''a;b'', ''a;b'', ''a;c'', ''a;d'', ''a'', ''a'', ''a'', ''a''] 1
      = [''b'', ''b'', ''c'', ''d'']
   \<and> 2 * freq [''a;b'', ''a;b'', ''a;c'', ''a;d'', ''a'', ''a'', ''a'', ''a''] 1 ''b''
      = length (labels_at [''a;b'', ''a;b'', ''a;c'', ''a;d'', ''a'', ''a'', ''a'', ''a''] 1)
   \<and> freq [''a;b'', ''a;b'', ''a;c'', ''a;d'', ''a'', ''a'', ''a'', ''a''] 0 ''a''
      = length [''a;b'', ''a;b'', ''a;c'', ''a;d'', ''a'', ''a'', ''a'', ''a'']
   \<and> median_tax (\<lambda>d. d) [''a;b'', ''a;b'', ''a;c'', ''a;d'', ''a'', ''a'', ''a'', ''a'']
      = Inr [Some ''a'']
   \<and> median_taxonomy (\<lambda>d. d) [''a;b'', ''a;b'', ''a;c'', ''a;d'', ''a'', ''a'', ''a'', ''a'']
      = Inr ''a''
   \<and> labels_at [''a;x'', ''b;x'', ''c;y'', ''d;z''] 1 = [''x'', ''x'', ''y'', ''z'']
   \<and> 2 * freq [''a;x'', ''b;x'', ''c;y'', ''d;z''] 1 ''x''
      = length (labels_at [''a;x'', ''b;x'', ''c;y'', ''d;z''] 1)
   \<and> 2 * freq [''a;x'', ''b;x'', ''c;y'', ''d;z''] 1 ''x'' = length [''a;x'', ''b;x'', ''c;y'', ''d;z'']
   \<and> median_tax (\<lambda>d. d) [''a;x'', ''b;x'', ''c;y'', ''d;z''] = Inr []
   \<and> median_taxonomy (\<lambda>d. d) [''a;x'', ''b;x'', ''c;y'', ''d;z''] = Inr []"
  by (simp add: median_eval)

text \<open>
  C7, amended: in consensus mode, at a rank depth \<open>d\<close> that the consensus reaches (every
  shallower depth has a label with at least half of the group), let \<open>l\<close> be a plurality
  label of depth \<open>d\<close>, and let its share be its frequency over the number of taxonomy
  strings of the whole group, \<open>max_count / len(taxonomies)\<close>, not over the reads that have
  a label at that depth. If the share is exactly 50 percent, depth \<open>d\<close> is kept (the
  boundary is inclusive), with a label of that same frequency, which is \<open>l\<close> itself when
  no other label ties with it; if the share is strictly below 50 percent, the consensus
  stops at depth \<open>d\<close>.
\<close>

theorem median_taxonomy_boundary:
  assumes "iteration_order iteritems"
    and "d < depth_of taxonomies"
    and "\<forall>i < d. \<exists>l. length taxonomies \<le> 2 * freq taxonomies i l"
    and "\<forall>l'. freq taxonomies d l' \<le> freq taxonomies d l"
  shows "\<exists>ws. median_tax iteritems taxonomies = Inr (map Some ws)
       \<and> median_taxonomy iteritems taxonomies = Inr (join ''; '' ws)
       \<and> (2 * freq taxonomies d l = length taxonomies
            \<longrightarrow> d < length ws \<and> freq taxonomies d (ws ! d) = freq taxonomies d l
              \<and> ((\<forall>l'. l' \<noteq> l \<longrightarrow> freq taxonomies d l' < freq taxonomies d l) \<longrightarrow> ws ! d = l))
       \<and> (2 * freq taxonomies d l < length taxonomies \<longrightarrow> length ws = d)"
proof -
  let ?n = "length taxonomies"
  from median_tax_char[OF assms(1), of taxonomies] obtain ws where
    ws: "median_tax iteritems taxonomies = Inr (map Some ws)"
      "median_taxonomy iteritems taxonomies = Inr (join ''; '' ws)"
      "\<forall>d < length ws. (\<forall>l. freq taxonomies d l \<le> freq taxonomies d (ws ! d))
           \<and> ?n \<le> 2 * freq taxonomies d (ws ! d)"
      "length ws < depth_of taxonomies \<longrightarrow> (\<forall>l. 2 * freq taxonomies (length ws) l < ?n)"
    by blast
  have reach: "d \<le> length ws"
  proof (rule ccontr)
    assume "\<not> d \<le> length ws"
    then have lt: "length ws < d" by simp
    then obtain l0 where "?n \<le> 2 * freq taxonomies (length ws) l0" using assms(3) by blast
    moreover have "2 * freq taxonomies (length ws) l0 < ?n" using ws(4) lt assms(2) by simp
    ultimately show False by simp
  qed
  have kept: "d < length ws \<and> freq taxonomies d (ws ! d) = freq taxonomies d l
      \<and> ((\<forall>l'. l' \<noteq> l \<longrightarrow> freq taxonomies d l' < freq taxonomies d l) \<longrightarrow> ws ! d = l)"
    if eq: "2 * freq taxonomies d l = ?n"
  proof -
    have "length ws \<noteq> d"
    proof
      assume "length ws = d"
      then have "2 * freq taxonomies d l < ?n" using ws(4) assms(2) by simp
      then show False using eq by simp
    qed
    then have lt: "d < length ws" using reach by simp
    then have "freq taxonomies d l \<le> freq taxonomies d (ws ! d)" using ws(3) by simp
    moreover have "freq taxonomies d (ws ! d) \<le> freq taxonomies d l" using assms(4) by simp
    ultimately have same: "freq taxonomies d (ws ! d) = freq taxonomies d l" by simp
    have "ws ! d = l" if only: "\<forall>l'. l' \<noteq> l \<longrightarrow> freq taxonomies d l' < freq taxonomies d l"
    proof (rule ccontr)
      assume "ws ! d \<noteq> l"
      then have "freq taxonomies d (ws ! d) < freq taxonomies d l" using only by blast
      then show False using same by simp
    qed
    then show ?thesis using lt same by blast
  qed
  have stops: "length ws = d" if less: "2 * freq taxonomies d l < ?n"
  proof (rule ccontr)
    assume "length ws \<noteq> d"
    then have lt: "d < length ws" using reach by simp
    then have "?n \<le> 2 * freq taxonomies d (ws ! d)" using ws(3) by simp
    moreover have "freq taxonomies d (ws ! d) \<le> freq taxonomies d l" using assms(4) by simp
    ultimately show False using less by simp
  qed
  show ?thesis using ws(1,2) kept stops by blast
qed

text \<open>
  The amended C7 at two inputs: with two reads \<open>a;b\<close>, \<open>a;c\<close> the label \<open>b\<close> has exactly half and
  is kept; with a third read \<open>a;d\<close> it has a third and depth 1 is dropped.
\<close>

theorem median_taxonomy_boundary_witness:
  "median_taxonomy (\<lambda>d. d) [''a;b'', ''a;c''] = Inr ''a; b''
   \<and> 2 * freq [''a;b'', ''a;c''] 1 ''b'' = length [''a;b'', ''a;c'']
   \<and> median_taxonomy (\<lambda>d. d) [''a;b'', ''a;c'', ''a;d''] = Inr ''a''
   \<and> 2 * freq [''a;b'', ''a;c'', ''a;d''] 1 ''b'' < length [''a;b'', ''a;c'', ''a;d'']"
proof -
  let ?t2 = "[''a;b'', ''a;c'']" and ?t3 = "[''a;b'', ''a;c'', ''a;d'']"
  have io: "iteration_order (\<lambda>d :: (string, nat) dict. d)" by (rule iteration_order_id)
  have d2: "1 < depth_of ?t2" and d3: "1 < depth_of ?t3" by (simp_all add: median_eval)
  have r2: "\<forall>i < 1. \<exists>l. length ?t2 \<le> 2 * freq ?t2 i l"
  proof -
    have "length ?t2 \<le> 2 * freq ?t2 0 ''a''" by (simp add: median_eval)
    then show ?thesis by auto
  qed
  have r3: "\<forall>i < 1. \<exists>l. length ?t3 \<le> 2 * freq ?t3 i l"
  proof -
    have "length ?t3 \<le> 2 * freq ?t3 0 ''a''" by (simp add: median_eval)
    then show ?thesis by auto
  qed
  have p2: "\<forall>l'. freq ?t2 1 l' \<le> freq ?t2 1 ''b''" by (auto simp: median_eval)
  have p3: "\<forall>l'. freq ?t3 1 l' \<le> freq ?t3 1 ''b''" by (auto simp: median_eval)
  have e2: "2 * freq ?t2 1 ''b'' = length ?t2" by (simp add: median_eval)
  have e3: "2 * freq ?t3 1 ''b'' < length ?t3" by (simp add: median_eval)
  from median_taxonomy_boundary[OF io d2 r2 p2] e2 obtain ws where
    a: "median_tax (\<lambda>d. d) ?t2 = Inr (map Some ws)" "median_taxonomy (\<lambda>d. d) ?t2 = Inr (join ''; '' ws)"
       "1 < length ws"
    by blast
  from median_taxonomy_boundary[OF io d3 r3 p3] e3 obtain vs where
    b: "median_tax (\<lambda>d. d) ?t3 = Inr (map Some vs)" "median_taxonomy (\<lambda>d. d) ?t3 = Inr (join ''; '' vs)"
       "length vs = 1"
    by blast
  have "median_taxonomy (\<lambda>d. d) ?t2 = Inr ''a; b''" by (simp add: median_eval)
  moreover have "median_taxonomy (\<lambda>d. d) ?t3 = Inr ''a''" by (simp add: median_eval)
  ultimately show ?thesis using e2 e3 by blast
qed


text \<open>
  C8 as stated: the surviving labels are rejoined with the delimiter the input was split
  on. The input is split on \<open>;\<close> and the labels are joined with \<open>;\<close> followed by a space.
\<close>

theorem median_taxonomy_delimiter_counterexample:
  "median_tax (\<lambda>d. d) [''a;b''] = Inr [Some ''a'', Some ''b'']
   \<and> median_taxonomy (\<lambda>d. d) [''a;b''] = Inr ''a; b''
   \<and> median_taxonomy (\<lambda>d. d) [''a;b''] \<noteq> Inr (join '';'' [''a'', ''b''])"
  by (simp add: median_eval)

text \<open>
  C8, amended: in consensus mode the resulting taxonomy string is the sequence of surviving
  rank labels, each stripped of surrounding whitespace, joined with a semicolon followed by
  a space (the input strings are split on the semicolon alone). When at least one rank
  survives, splitting the result on the semicolon and stripping each part gives the
  surviving labels back; when no rank survives, the result is the empty string.
\<close>

theorem median_taxonomy_join:
  assumes "iteration_order iteritems"
  shows "\<exists>ws. median_tax iteritems taxonomies = Inr (map Some ws)
       \<and> median_taxonomy iteritems taxonomies = Inr (join ''; '' ws)
       \<and> (ws \<noteq> [] \<longrightarrow> map strip (split CHR '';'' (join ''; '' ws)) = ws)
       \<and> (ws = [] \<longrightarrow> median_taxonomy iteritems taxonomies = Inr [])"
proof -
  from median_tax_char[OF assms, of taxonomies] obtain ws where
    ws: "median_tax iteritems taxonomies = Inr (map Some ws)"
      "median_taxonomy iteritems taxonomies = Inr (join ''; '' ws)"
      "\<forall>w \<in> set ws. label w"
    by blast
  have "map strip (split CHR '';'' (join ''; '' ws)) = ws" if "ws \<noteq> []"
    using split_join_labels[OF that ws(3), of "[]"] by simp
  moreover have "median_taxonomy iteritems taxonomies = Inr []" if "ws = []"
    using ws(2) that by simp
  ultimately show ?thesis using ws(1,2) by blast
qed

text \<open>
  The amended C8 at \<open> a ;b\<close>, \<open>a; b\<close>, where two ranks survive, and at \<open>a\<close>, \<open>b\<close>,
  \<open>c\<close>, where none does.
\<close>

theorem median_taxonomy_join_witness:
  "iteration_order (\<lambda>d :: (string, nat) dict. d)
   \<and> median_tax (\<lambda>d. d) ['' a ;b'', ''a; b''] = Inr [Some ''a'', Some ''b'']
   \<and> median_taxonomy (\<lambda>d. d) ['' a ;b'', ''a; b''] = Inr ''a; b''
   \<and> map strip (split CHR '';'' ''a; b'') = [''a'', ''b'']
   \<and> median_tax (\<lambda>d. d) [''a'', ''b'', ''c''] = Inr []
   \<and> median_taxonomy (\<lambda>d. d) [''a'', ''b'', ''c''] = Inr []"
proof -
  let ?ts = "['' a ;b'', ''a; b'']" and ?us = "[''a'', ''b'', ''c'']"
  have io: "iteration_order (\<lambda>d :: (string, nat) dict. d)" by (rule iteration_order_id)
  from median_taxonomy_join[OF io, of ?ts] obtain ws where
    ws: "median_tax (\<lambda>d. d) ?ts = Inr (map Some ws)"
      "median_taxonomy (\<lambda>d. d) ?ts = Inr (join ''; '' ws)"
      "ws \<noteq> [] \<longrightarrow> map strip (split CHR '';'' (join ''; '' ws)) = ws"
    by blast
  have mt: "median_tax (\<lambda>d. d) ?ts = Inr [Some ''a'', Some ''b'']" by (simp add: median_eval)
  with ws(1) have "map Some ws = [Some ''a'', Some ''b'']" by simp
  then have w: "ws = [''a'', ''b'']" by auto
  have 1: "median_taxonomy (\<lambda>d. d) ?ts = Inr ''a; b''" using ws(2) w by simp
  have 2: "map strip (split CHR '';'' ''a; b'') = [''a'', ''b'']" using ws(3) w by simp
  from median_taxonomy_join[OF io, of ?us] obtain vs where
    vs: "median_tax (\<lambda>d. d) ?us = Inr (map Some vs)"
      "vs = [] \<longrightarrow> median_taxonomy (\<lambda>d. d) ?us = Inr []"
    by blast
  have mu: "median_tax (\<lambda>d. d) ?us = Inr []" by (simp add: median_eval)
  with vs(1) have "vs = []" by simp
  then have 3: "median_taxonomy (\<lambda>d. d) ?us = Inr []" using vs(2) by simp
  show ?thesis using io mt 1 2 mu 3 by blast
qed

section \<open>Proofs on the aggregation\<close>

subsection \<open>Dictionaries\<close>

lemma map_of_setitem: "map_of (setitem k v d) = (map_of d)(k \<mapsto> v)"
  by (induction k v d rule: setitem.induct) (auto simp: fun_eq_iff)

lemma keys_setitem: "fst ` set (setitem k v d) = insert k (fst ` set d)"
  by (induction k v d rule: setitem.induct) auto

lemma distinct_setitem: "distinct (map fst d) \<Longrightarrow> distinct (map fst (setitem k v d))"
proof (induction k v d rule: setitem.induct)
  case (1 k v)
  then show ?case by simp
next
  case (2 k v k' v' d)
  then show ?case using keys_setitem[of k v d] by (auto simp: image_iff)
qed

lemma set_setitem:
  "distinct (map fst d) \<Longrightarrow> set (setitem k v d) = insert (k, v) {p \<in> set d. fst p \<noteq> k}"
proof (induction k v d rule: setitem.induct)
  case (1 k v)
  then show ?case by simp
next
  case (2 k v k' v' d)
  show ?case
  proof (cases "k' = k")
    case True
    then have "\<forall>p \<in> set d. fst p \<noteq> k" using 2(2) by (auto simp: image_iff)
    then show ?thesis using True by auto
  next
    case False
    then have "set (setitem k v d) = insert (k, v) {p \<in> set d. fst p \<noteq> k}"
      using 2 by simp
    then show ?thesis using False by auto
  qed
qed

subsection \<open>The first loop\<close>

lemma group_snoc:
  "group (sequences @ [s]) k = group sequences k @ (if seq_aligned_sequence s = k then [s] else [])"
  by (simp add: group_def)

lemma group_empty: "k \<notin> seq_aligned_sequence ` set sequences \<Longrightarrow> group sequences k = []"
  by (auto simp: group_def filter_empty_conv)

lemma collected_Nil: "collected taxonomies [] []"
  by (simp add: collected_def)

lemma collected_collect:
  assumes inv: "collected taxonomies sequences d"
  shows "collected taxonomies (sequences @ [s]) (collect taxonomies s d)"
proof -
  let ?k = "seq_aligned_sequence s"
  let ?tax = "case map_of taxonomies (seq_name s) of None \<Rightarrow> [] | Some t \<Rightarrow> t"
  define c0 where "c0 = (case map_of d ?k of None \<Rightarrow> CollectedInfo | Some c \<Rightarrow> c)"
  define c1 where "c1 = c0
              \<lparr>ci_count := ci_count c0 + 1,
               ci_taxonomies := (if taxonomies \<noteq> [] then ci_taxonomies c0 @ [?tax] else ci_taxonomies c0),
               ci_names := ci_names c0 @ [seq_name s],
               ci_coverage := ci_coverage c0 + seq_coverage_increment s,
               ci_aligned_lengths := ci_aligned_lengths c0 @ [seq_aligned_length s]\<rparr>"
  have col: "collect taxonomies s d = setitem ?k c1 d"
    by (simp add: collect_def c0_def c1_def Let_def)
  have dist: "distinct (map fst d)" and keys: "fst ` set d = seq_aligned_sequence ` set sequences"
    and ent: "\<And>k c. (k, c) \<in> set d \<Longrightarrow>
        ci_count c = int (length (group sequences k)) \<and>
        ci_names c = map seq_name (group sequences k) \<and>
        ci_aligned_lengths c = map seq_aligned_length (group sequences k) \<and>
        length (ci_taxonomies c) = (if taxonomies \<noteq> [] then length (group sequences k) else 0)"
    using inv by (auto simp: collected_def)
  have c0: "ci_count c0 = int (length (group sequences ?k)) \<and>
        ci_names c0 = map seq_name (group sequences ?k) \<and>
        ci_aligned_lengths c0 = map seq_aligned_length (group sequences ?k) \<and>
        length (ci_taxonomies c0) = (if taxonomies \<noteq> [] then length (group sequences ?k) else 0)"
  proof (cases "map_of d ?k")
    case None
    then have "?k \<notin> fst ` set d" by (simp add: map_of_eq_None_iff)
    then have "group sequences ?k = []" using keys by (intro group_empty) simp
    then show ?thesis using None by (simp add: c0_def CollectedInfo_def)
  next
    case (Some c)
    then have "(?k, c) \<in> set d" by (rule map_of_SomeD)
    from ent[OF this] show ?thesis using Some by (simp add: c0_def)
  qed
  have c1: "ci_count c1 = int (length (group (sequences @ [s]) ?k)) \<and>
        ci_names c1 = map seq_name (group (sequences @ [s]) ?k) \<and>
        ci_aligned_lengths c1 = map seq_aligned_length (group (sequences @ [s]) ?k) \<and>
        length (ci_taxonomies c1) = (if taxonomies \<noteq> [] then length (group (sequences @ [s]) ?k) else 0)"
    using c0 by (simp add: c1_def group_snoc)
  have 1: "distinct (map fst (setitem ?k c1 d))" using dist by (rule distinct_setitem)
  have 2: "fst ` set (setitem ?k c1 d) = seq_aligned_sequence ` set (sequences @ [s])"
    using keys by (simp add: keys_setitem)
  have 3: "ci_count c = int (length (group (sequences @ [s]) k)) \<and>
        ci_names c = map seq_name (group (sequences @ [s]) k) \<and>
        ci_aligned_lengths c = map seq_aligned_length (group (sequences @ [s]) k) \<and>
        length (ci_taxonomies c) = (if taxonomies \<noteq> [] then length (group (sequences @ [s]) k) else 0)"
    if "(k, c) \<in> set (setitem ?k c1 d)" for k c
  proof -
    from that have "(k, c) = (?k, c1) \<or> ((k, c) \<in> set d \<and> k \<noteq> ?k)"
      by (auto simp: set_setitem[OF dist])
    then show ?thesis
    proof
      assume "(k, c) = (?k, c1)"
      then show ?thesis using c1 by simp
    next
      assume a: "(k, c) \<in> set d \<and> k \<noteq> ?k"
      then have "group (sequences @ [s]) k = group sequences k" by (auto simp: group_snoc)
      then show ?thesis using ent[of k c] a by simp
    qed
  qed
  show ?thesis unfolding col collected_def using 1 2 3 by blast
qed

lemma collected_fold:
  "collected taxonomies pre d \<Longrightarrow> collected taxonomies (pre @ rest) (fold (collect taxonomies) rest d)"
proof (induction rest arbitrary: pre d)
  case Nil
  then show ?case by simp
next
  case (Cons s rest)
  have "collected taxonomies (pre @ [s]) (collect taxonomies s d)"
    using Cons.prems by (rule collected_collect)
  from Cons.IH[OF this] show ?case by simp
qed

lemma collected_seq_to_collected_info:
  "collected taxonomies sequences (seq_to_collected_info taxonomies sequences)"
  using collected_fold[OF collected_Nil, of taxonomies sequences]
  by (simp add: seq_to_collected_info_def)

subsection \<open>Counting the records of all groups\<close>

lemma sum_ind_distinct:
  "distinct ks \<Longrightarrow> a \<in> set ks \<Longrightarrow> (\<Sum>k\<leftarrow>ks. if a = k then 1 else 0) = (1 :: nat)"
proof (induction ks)
  case Nil
  then show ?case by simp
next
  case (Cons k ks)
  show ?case
  proof (cases "a = k")
    case True
    then have "a \<notin> set ks" using Cons.prems by simp
    then have "(\<Sum>k\<leftarrow>ks. if a = k then 1 else 0) = (0 :: nat)" by (induction ks) auto
    then show ?thesis using True by simp
  next
    case False
    then show ?thesis using Cons by simp
  qed
qed

lemma groups_partition:
  "distinct ks \<Longrightarrow> f ` set xs \<subseteq> set ks \<Longrightarrow>
     (\<Sum>k\<leftarrow>ks. length (filter (\<lambda>s. f s = k) xs)) = length xs"
proof (induction xs)
  case Nil
  then show ?case by simp
next
  case (Cons x xs)
  have "(\<Sum>k\<leftarrow>ks. length (filter (\<lambda>s. f s = k) (x # xs)))
      = (\<Sum>k\<leftarrow>ks. (if f x = k then 1 else 0) + length (filter (\<lambda>s. f s = k) xs))"
    by (intro arg_cong[where f = sum_list] map_cong) auto
  also have "\<dots> = (\<Sum>k\<leftarrow>ks. if f x = k then 1 else 0) + (\<Sum>k\<leftarrow>ks. length (filter (\<lambda>s. f s = k) xs))"
    by (simp add: sum_list_addf)
  also have "\<dots> = 1 + length xs"
    using Cons sum_ind_distinct[of ks "f x"] by simp
  finally show ?case by simp
qed

lemma collected_sum_count:
  assumes "collected taxonomies sequences d"
  shows "(\<Sum>(k, c)\<leftarrow>d. ci_count c) = int (length sequences)"
proof -
  have dist: "distinct (map fst d)" and keys: "fst ` set d = seq_aligned_sequence ` set sequences"
    and ent: "\<And>k c. (k, c) \<in> set d \<Longrightarrow> ci_count c = int (length (group sequences k))"
    using assms by (auto simp: collected_def)
  have "(\<Sum>(k, c)\<leftarrow>d. ci_count c) = (\<Sum>p\<leftarrow>d. int (length (group sequences (fst p))))"
    by (intro arg_cong[where f = sum_list] map_cong) (auto dest: ent)
  also have "\<dots> = int (\<Sum>k\<leftarrow>map fst d. length (group sequences k))"
    by (induction d) auto
  also have "\<dots> = int (length sequences)"
    using groups_partition[OF dist, of seq_aligned_sequence sequences] keys
    by (simp add: group_def)
  finally show ?thesis .
qed

subsection \<open>The consensus never raises\<close>

lemma median_loop_total:
  "0 < n \<Longrightarrow> \<exists>ws. median_loop it n L = Inr (map Some ws)"
proof (induction L)
  case Nil
  have "median_loop it n [] = Inr (map Some [])" by simp
  then show ?case by blast
next
  case (Cons d L)
  obtain m w where mw: "level_max (it d) = (m, w)" by (cases "level_max (it d)")
  from Cons obtain ws where ws: "median_loop it n L = Inr (map Some ws)" by blast
  show ?case
  proof (cases "n \<le> 2 * m")
    case True
    then have "0 < m" using Cons.prems by simp
    from level_max_props(2)[OF mw this] obtain l where "w = Some l" by blast
    then have "median_loop it n (d # L) = Inr (map Some (l # ws))"
      using mw True Cons.prems ws by simp
    then show ?thesis by blast
  next
    case False
    then have "median_loop it n (d # L) = Inr (map Some [])" using mw Cons.prems by simp
    then show ?thesis by blast
  qed
qed

lemma median_taxonomy_total: "\<exists>tax. median_taxonomy it ts = Inr tax"
proof (cases "ts = []")
  case True
  then show ?thesis by (simp add: median_taxonomy_def median_tax_def levels_to_counts_def)
next
  case False
  then have "0 < length ts" by simp
  from median_loop_total[OF this] obtain ws where
    "median_loop it (length ts) (levels_to_counts ts) = Inr (map Some ws)" by blast
  then have "median_taxonomy it ts = Inr (join ''; '' ws)"
    unfolding median_taxonomy_def median_tax_def by (simp only: sum.case py_join_Some)
  then show ?thesis by blast
qed

lemma median_taxonomy_Nil: "median_taxonomy it [] = Inr []"
  by (simp add: median_taxonomy_def median_tax_def levels_to_counts_def)

subsection \<open>The second loop\<close>

lemma Info_ok:
  assumes "use_first \<longrightarrow> ci_taxonomies c \<noteq> []"
  shows "\<exists>tax. Info itl use_first k c =
           Inr \<lparr>info_seq = k, info_count = ci_count c, info_taxonomy = tax,
               info_names = ci_names c, info_coverage = ci_coverage c,
               info_aligned_lengths = ci_aligned_lengths c\<rparr>"
proof (cases use_first)
  case True
  then obtain t ts where "ci_taxonomies c = t # ts" using assms by (cases "ci_taxonomies c") auto
  then show ?thesis using True by (simp add: Info_def)
next
  case False
  obtain tax where "median_taxonomy itl (ci_taxonomies c) = Inr tax"
    using median_taxonomy_total by blast
  then show ?thesis using False by (simp add: Info_def)
qed

lemma yield_infos_ok:
  "\<forall>(k, c) \<in> set items. use_first \<longrightarrow> ci_taxonomies c \<noteq> [] \<Longrightarrow>
     \<exists>infos. yield_infos itl use_first items = Inr infos \<and>
       map (\<lambda>i. (info_seq i, info_count i, info_names i, info_aligned_lengths i)) infos
         = map (\<lambda>(k, c). (k, ci_count c, ci_names c, ci_aligned_lengths c)) items"
proof (induction items)
  case Nil
  then show ?case by simp
next
  case (Cons p items)
  obtain k c where p: "p = (k, c)" by (cases p)
  have "use_first \<longrightarrow> ci_taxonomies c \<noteq> []" using Cons.prems p by simp
  from Info_ok[OF this, of itl k] obtain tax where
    i: "Info itl use_first k c =
           Inr \<lparr>info_seq = k, info_count = ci_count c, info_taxonomy = tax,
               info_names = ci_names c, info_coverage = ci_coverage c,
               info_aligned_lengths = ci_aligned_lengths c\<rparr>" by blast
  from Cons obtain infos where
    infos: "yield_infos itl use_first items = Inr infos"
      "map (\<lambda>i. (info_seq i, info_count i, info_names i, info_aligned_lengths i)) infos
         = map (\<lambda>(k, c). (k, ci_count c, ci_names c, ci_aligned_lengths c)) items"
    by auto
  show ?case unfolding p using i infos by simp
qed

lemma yield_infos_first_empty:
  "items \<noteq> [] \<Longrightarrow> \<forall>(k, c) \<in> set items. ci_taxonomies c = [] \<Longrightarrow>
     yield_infos itl True items = Inl IndexError"
  by (cases items) (auto simp: Info_def)

lemma iteration_order_sum:
  "iteration_order it \<Longrightarrow> sum_list (map f (it d)) = (sum_list (map f d) :: int)"
proof -
  assume "iteration_order it"
  then have "mset (it d) = mset d" by (simp add: iteration_order_def)
  then have "mset (map f (it d)) = mset (map f d)" by simp
  then show ?thesis by (metis sum_mset_sum_list)
qed

lemma iteration_order_Nil: "iteration_order it \<Longrightarrow> it d = [] \<longleftrightarrow> d = []"
  unfolding iteration_order_def by (metis mset_zero_iff)

lemma collected_taxonomies:
  assumes "collected taxonomies sequences d" and "(k, c) \<in> set d"
  shows "taxonomies \<noteq> [] \<Longrightarrow> ci_taxonomies c \<noteq> []" and "taxonomies = [] \<Longrightarrow> ci_taxonomies c = []"
proof -
  have keys: "fst ` set d = seq_aligned_sequence ` set sequences"
    and len: "length (ci_taxonomies c) = (if taxonomies \<noteq> [] then length (group sequences k) else 0)"
    using assms by (auto simp: collected_def)
  have "k \<in> seq_aligned_sequence ` set sequences" using keys assms(2) by force
  then have "group sequences k \<noteq> []" by (auto simp: group_def filter_empty_conv)
  then show "taxonomies \<noteq> [] \<Longrightarrow> ci_taxonomies c \<noteq> []" using len by auto
  show "taxonomies = [] \<Longrightarrow> ci_taxonomies c = []" using len by simp
qed

lemma collected_nonempty:
  "collected taxonomies sequences d \<Longrightarrow> d = [] \<longleftrightarrow> sequences = []"
  by (auto simp: collected_def)

lemma aggregate_returns:
  assumes it: "iteration_order it" and ok: "\<not> use_first \<or> taxonomies \<noteq> []"
  shows "\<exists>infos. seqs_to_counts_and_taxonomy it itl sequences taxonomies use_first = Inr infos \<and>
       map (\<lambda>i. (info_seq i, info_count i, info_names i, info_aligned_lengths i)) infos
         = map (\<lambda>(k, c). (k, ci_count c, ci_names c, ci_aligned_lengths c))
             (it (seq_to_collected_info taxonomies sequences))"
proof -
  let ?d = "seq_to_collected_info taxonomies sequences"
  have inv: "collected taxonomies sequences ?d" by (rule collected_seq_to_collected_info)
  have "\<forall>(k, c) \<in> set (it ?d). use_first \<longrightarrow> ci_taxonomies c \<noteq> []"
    using ok collected_taxonomies(1)[OF inv] iteration_order_set[OF it, of ?d] by auto
  from yield_infos_ok[OF this, of itl] show ?thesis
    by (simp add: seqs_to_counts_and_taxonomy_def)
qed

lemma aggregate_raises:
  assumes it: "iteration_order it" and "sequences \<noteq> []"
  shows "seqs_to_counts_and_taxonomy it itl sequences [] True = Inl IndexError"
proof -
  let ?d = "seq_to_collected_info [] sequences"
  have inv: "collected [] sequences ?d" by (rule collected_seq_to_collected_info)
  have ne: "it ?d \<noteq> []" using collected_nonempty[OF inv] iteration_order_Nil[OF it, of ?d] assms(2) by simp
  have "\<forall>(k, c) \<in> set (it ?d). ci_taxonomies c = []"
    using collected_taxonomies(2)[OF inv] iteration_order_set[OF it, of ?d] by auto
  from yield_infos_first_empty[OF ne this] show ?thesis
    by (simp add: seqs_to_counts_and_taxonomy_def)
qed

subsection \<open>Claims on the aggregation\<close>

text \<open>The definitions a concrete evaluation of the aggregation unfolds.\<close>

lemmas aggregate_eval = seqs_to_counts_and_taxonomy_def seq_to_collected_info_def collect_def
  CollectedInfo_def Info_def Let_def

text \<open>
  C4: a group whose collected taxonomy list is empty should get the empty taxonomy in both
  modes. The list is empty exactly when the taxonomy hash is empty (\<open>if taxonomies:\<close>
  skips the append). With one record and an empty hash the consensus mode returns the empty
  string, and the first-hit mode raises \<open>IndexError\<close> at
  \<open>collected_info.taxonomies[0]\<close>, before the line \<open>if tax is None: tax = ''\<close> that was
  meant to supply the empty string.
\<close>

theorem first_taxonomy_empty_lookup_raises:
  "map (\<lambda>(k, c). ci_taxonomies c)
      (seq_to_collected_info []
         [\<lparr>seq_name = ''r1'', seq_aligned_sequence = ''ACGT'', seq_coverage_increment = 1,
           seq_aligned_length = 4\<rparr>]) = [[]]
   \<and> seqs_to_counts_and_taxonomy (\<lambda>d. d) (\<lambda>d. d)
        [\<lparr>seq_name = ''r1'', seq_aligned_sequence = ''ACGT'', seq_coverage_increment = 1,
          seq_aligned_length = 4\<rparr>] [] True = Inl IndexError
   \<and> seqs_to_counts_and_taxonomy (\<lambda>d. d) (\<lambda>d. d)
        [\<lparr>seq_name = ''r1'', seq_aligned_sequence = ''ACGT'', seq_coverage_increment = 1,
          seq_aligned_length = 4\<rparr>] [] False
       = Inr [\<lparr>info_seq = ''ACGT'', info_count = 1, info_taxonomy = [], info_names = [''r1''],
               info_coverage = 1, info_aligned_lengths = [4]\<rparr>]"
  by (simp add: aggregate_eval median_taxonomy_Nil)

text \<open>
  C5: for every sequence of input records of one sample and gene, the counts of the
  aggregated records emitted add up to the number of input records. The aggregation
  returns its records in every case but one, first-hit mode with an empty taxonomy hash and
  at least one record, where it raises \<open>IndexError\<close> (the defect of C4) and emits nothing.
\<close>

theorem aggregate_counts_sum:
  assumes "iteration_order iteritems"
  shows "(\<exists>infos. seqs_to_counts_and_taxonomy iteritems iteritems_level sequences taxonomies
                    use_first_taxonomy = Inr infos
              \<and> sum_list (map info_count infos) = int (length sequences))
       \<or> (use_first_taxonomy \<and> taxonomies = [] \<and> sequences \<noteq> []
          \<and> seqs_to_counts_and_taxonomy iteritems iteritems_level sequences taxonomies
               use_first_taxonomy = Inl IndexError)"
proof (cases "use_first_taxonomy \<and> taxonomies = [] \<and> sequences \<noteq> []")
  case True
  then show ?thesis using aggregate_raises[OF assms, of sequences iteritems_level] by simp
next
  case False
  let ?d = "seq_to_collected_info taxonomies sequences"
  have inv: "collected taxonomies sequences ?d" by (rule collected_seq_to_collected_info)
  have "\<exists>infos. seqs_to_counts_and_taxonomy iteritems iteritems_level sequences taxonomies
                    use_first_taxonomy = Inr infos
       \<and> map (\<lambda>i. (info_seq i, info_count i, info_names i, info_aligned_lengths i)) infos
         = map (\<lambda>(k, c). (k, ci_count c, ci_names c, ci_aligned_lengths c)) (iteritems ?d)"
  proof (cases "\<not> use_first_taxonomy \<or> taxonomies \<noteq> []")
    case True
    then show ?thesis by (rule aggregate_returns[OF assms])
  next
    case no: False
    with False have "sequences = []" by simp
    then have "?d = []" using collected_nonempty[OF inv] by simp
    then have "iteritems ?d = []" using iteration_order_Nil[OF assms] by simp
    then show ?thesis by (simp add: seqs_to_counts_and_taxonomy_def)
  qed
  then obtain infos where
    r: "seqs_to_counts_and_taxonomy iteritems iteritems_level sequences taxonomies
          use_first_taxonomy = Inr infos"
    and m: "map (\<lambda>i. (info_seq i, info_count i, info_names i, info_aligned_lengths i)) infos
         = map (\<lambda>(k, c). (k, ci_count c, ci_names c, ci_aligned_lengths c)) (iteritems ?d)"
    by blast
  have "map (\<lambda>q. fst (snd q)) (map (\<lambda>i. (info_seq i, info_count i, info_names i, info_aligned_lengths i)) infos)
      = map (\<lambda>q. fst (snd q)) (map (\<lambda>(k, c). (k, ci_count c, ci_names c, ci_aligned_lengths c)) (iteritems ?d))"
    using m by simp
  then have "map info_count infos = map (\<lambda>(k, c). ci_count c) (iteritems ?d)"
    by (simp add: comp_def case_prod_beta)
  then have "sum_list (map info_count infos) = (\<Sum>(k, c)\<leftarrow>iteritems ?d. ci_count c)" by simp
  also have "\<dots> = (\<Sum>(k, c)\<leftarrow>?d. ci_count c)" using assms by (rule iteration_order_sum)
  also have "\<dots> = int (length sequences)" using inv by (rule collected_sum_count)
  finally show ?thesis using r by blast
qed

text \<open>
  C5 at three records in two groups: the counts are 2 and 1.
\<close>

theorem aggregate_counts_sum_witness:
  "iteration_order (\<lambda>d :: (string, collected_info) dict. d)
   \<and> (\<exists>infos. seqs_to_counts_and_taxonomy (\<lambda>d. d) (\<lambda>d. d)
        [\<lparr>seq_name = ''r1'', seq_aligned_sequence = ''ACGT'', seq_coverage_increment = 1,
          seq_aligned_length = 4\<rparr>,
         \<lparr>seq_name = ''r2'', seq_aligned_sequence = ''AC-T'', seq_coverage_increment = 3 / 4,
          seq_aligned_length = 3\<rparr>,
         \<lparr>seq_name = ''r3'', seq_aligned_sequence = ''ACGT'', seq_coverage_increment = 1,
          seq_aligned_length = 4\<rparr>]
        [(''r1'', ''a;b''), (''r3'', ''a;b'')] False = Inr infos
      \<and> map info_count infos = [2, 1]
      \<and> sum_list (map info_count infos) = 3)"
proof -
  let ?seqs = "[\<lparr>seq_name = ''r1'', seq_aligned_sequence = ''ACGT'', seq_coverage_increment = 1,
          seq_aligned_length = 4\<rparr>,
         \<lparr>seq_name = ''r2'', seq_aligned_sequence = ''AC-T'', seq_coverage_increment = 3 / 4,
          seq_aligned_length = 3\<rparr>,
         \<lparr>seq_name = ''r3'', seq_aligned_sequence = ''ACGT'', seq_coverage_increment = 1,
          seq_aligned_length = 4\<rparr>]"
  let ?tax = "[(''r1'', ''a;b''), (''r3'', ''a;b'')]"
  have io: "iteration_order (\<lambda>d :: (string, collected_info) dict. d)"
    by (simp add: iteration_order_def)
  from aggregate_counts_sum[OF io, of "\<lambda>d. d" ?seqs ?tax False] obtain infos where
    r: "seqs_to_counts_and_taxonomy (\<lambda>d. d) (\<lambda>d. d) ?seqs ?tax False = Inr infos"
    and s: "sum_list (map info_count infos) = int (length ?seqs)"
    by blast
  have "map info_count (projr (seqs_to_counts_and_taxonomy (\<lambda>d. d) (\<lambda>d. d) ?seqs ?tax False)) = [2, 1]"
    by (simp add: aggregate_eval median_eval)
  then have "map info_count infos = [2, 1]" using r by simp
  then show ?thesis using io r s by simp
qed


text \<open>
  C10: for every aggregated record emitted, the count equals the length of the list of
  read names and the length of the list of aligned lengths, and the two lists are the names
  and the aligned lengths of the input records with that window, in input order: position
  \<open>j\<close> of both lists comes from the same input record.
\<close>

theorem aggregate_names_lengths:
  assumes "iteration_order iteritems"
    and "seqs_to_counts_and_taxonomy iteritems iteritems_level sequences taxonomies
           use_first_taxonomy = Inr infos"
    and "i \<in> set infos"
  shows "info_count i = int (length (info_names i))
       \<and> length (info_aligned_lengths i) = length (info_names i)
       \<and> info_names i = map seq_name (group sequences (info_seq i))
       \<and> info_aligned_lengths i = map seq_aligned_length (group sequences (info_seq i))
       \<and> (\<forall>j < length (info_names i).
             group sequences (info_seq i) ! j \<in> set sequences
           \<and> info_names i ! j = seq_name (group sequences (info_seq i) ! j)
           \<and> info_aligned_lengths i ! j = seq_aligned_length (group sequences (info_seq i) ! j))"
proof -
  let ?d = "seq_to_collected_info taxonomies sequences"
  let ?proj = "\<lambda>i. (info_seq i, info_count i, info_names i, info_aligned_lengths i)"
  have inv: "collected taxonomies sequences ?d" by (rule collected_seq_to_collected_info)
  have ok: "\<not> use_first_taxonomy \<or> taxonomies \<noteq> []"
  proof (rule ccontr)
    assume no: "\<not> (\<not> use_first_taxonomy \<or> taxonomies \<noteq> [])"
    show False
    proof (cases "sequences = []")
      case True
      then have "?d = []" using collected_nonempty[OF inv] by simp
      then have "iteritems ?d = []" using iteration_order_Nil[OF assms(1)] by simp
      then have "infos = []" using assms(2) by (simp add: seqs_to_counts_and_taxonomy_def)
      then show False using assms(3) by simp
    next
      case False
      then show False using aggregate_raises[OF assms(1) False, of iteritems_level] assms(2) no by simp
    qed
  qed
  from aggregate_returns[OF assms(1) ok, of iteritems_level sequences] assms(2)
  have m: "map ?proj infos
         = map (\<lambda>(k, c). (k, ci_count c, ci_names c, ci_aligned_lengths c)) (iteritems ?d)"
    by simp
  have "?proj i \<in> set (map ?proj infos)" using assms(3) by auto
  then have "?proj i \<in> set (map (\<lambda>(k, c). (k, ci_count c, ci_names c, ci_aligned_lengths c)) (iteritems ?d))"
    using m by simp
  then obtain k c where kc: "(k, c) \<in> set (iteritems ?d)"
    and eq: "?proj i = (k, ci_count c, ci_names c, ci_aligned_lengths c)"
    by auto
  have mem: "(k, c) \<in> set ?d" using kc iteration_order_set[OF assms(1), of ?d] by simp
  have ent: "ci_count c = int (length (group sequences k)) \<and>
        ci_names c = map seq_name (group sequences k) \<and>
        ci_aligned_lengths c = map seq_aligned_length (group sequences k)"
    using inv mem by (auto simp: collected_def)
  let ?g = "group sequences (info_seq i)"
  have n: "info_names i = map seq_name ?g" and a: "info_aligned_lengths i = map seq_aligned_length ?g"
    and c: "info_count i = int (length ?g)"
    using eq ent by auto
  have sub: "set ?g \<subseteq> set sequences" by (auto simp: group_def)
  have idx: "\<forall>j < length (info_names i).
             ?g ! j \<in> set sequences
           \<and> info_names i ! j = seq_name (?g ! j)
           \<and> info_aligned_lengths i ! j = seq_aligned_length (?g ! j)"
  proof (intro allI impI)
    fix j assume "j < length (info_names i)"
    then have j: "j < length ?g" using n by simp
    then have "?g ! j \<in> set sequences" using sub nth_mem by blast
    then show "?g ! j \<in> set sequences
           \<and> info_names i ! j = seq_name (?g ! j)
           \<and> info_aligned_lengths i ! j = seq_aligned_length (?g ! j)"
      using j n a by simp
  qed
  show ?thesis using n a c idx by simp
qed

text \<open>
  C10 at three records: the group of \<open>ACGT\<close> holds the reads \<open>r1\<close>, \<open>r3\<close> with
  the lengths 4, 5.
\<close>

theorem aggregate_names_lengths_witness:
  "iteration_order (\<lambda>d :: (string, collected_info) dict. d)
   \<and> seqs_to_counts_and_taxonomy (\<lambda>d. d) (\<lambda>d. d)
        [\<lparr>seq_name = ''r1'', seq_aligned_sequence = ''ACGT'', seq_coverage_increment = 1,
          seq_aligned_length = 4\<rparr>,
         \<lparr>seq_name = ''r2'', seq_aligned_sequence = ''AC-T'', seq_coverage_increment = 3 / 4,
          seq_aligned_length = 3\<rparr>,
         \<lparr>seq_name = ''r3'', seq_aligned_sequence = ''ACGT'', seq_coverage_increment = 1,
          seq_aligned_length = 5\<rparr>]
        [] False
      = Inr [\<lparr>info_seq = ''ACGT'', info_count = 2, info_taxonomy = [], info_names = [''r1'', ''r3''],
              info_coverage = 2, info_aligned_lengths = [4, 5]\<rparr>,
             \<lparr>info_seq = ''AC-T'', info_count = 1, info_taxonomy = [], info_names = [''r2''],
              info_coverage = 3 / 4, info_aligned_lengths = [3]\<rparr>]
   \<and> info_count \<lparr>info_seq = ''ACGT'', info_count = 2, info_taxonomy = [], info_names = [''r1'', ''r3''],
              info_coverage = 2, info_aligned_lengths = [4, 5]\<rparr>
      = int (length (info_names \<lparr>info_seq = ''ACGT'', info_count = 2, info_taxonomy = [],
              info_names = [''r1'', ''r3''], info_coverage = 2, info_aligned_lengths = [4, 5]\<rparr>))"
proof -
  let ?seqs = "[\<lparr>seq_name = ''r1'', seq_aligned_sequence = ''ACGT'', seq_coverage_increment = 1,
          seq_aligned_length = 4\<rparr>,
         \<lparr>seq_name = ''r2'', seq_aligned_sequence = ''AC-T'', seq_coverage_increment = 3 / 4,
          seq_aligned_length = 3\<rparr>,
         \<lparr>seq_name = ''r3'', seq_aligned_sequence = ''ACGT'', seq_coverage_increment = 1,
          seq_aligned_length = 5\<rparr>]"
  let ?i = "\<lparr>info_seq = ''ACGT'', info_count = 2, info_taxonomy = [], info_names = [''r1'', ''r3''],
              info_coverage = 2, info_aligned_lengths = [4, 5]\<rparr>"
  let ?infos = "[?i, \<lparr>info_seq = ''AC-T'', info_count = 1, info_taxonomy = [], info_names = [''r2''],
              info_coverage = 3 / 4, info_aligned_lengths = [3]\<rparr>]"
  have io: "iteration_order (\<lambda>d :: (string, collected_info) dict. d)"
    by (simp add: iteration_order_def)
  have r: "seqs_to_counts_and_taxonomy (\<lambda>d. d) (\<lambda>d. d) ?seqs [] False = Inr ?infos"
    by (simp add: aggregate_eval median_taxonomy_Nil)
  have mem: "?i \<in> set ?infos" by simp
  from aggregate_names_lengths[OF io r mem]
  have "info_count ?i = int (length (info_names ?i))" by blast
  then show ?thesis using io r by blast
qed

section \<open>Proofs on the rewriting of placements\<close>

subsection \<open>Fatal inputs\<close>

lemma count_placement_lacks_nm:
  "\<not> has_nm p \<Longrightarrow> \<exists>e. count_placement u index p st = Inl e"
proof (cases p)
  case (JObj d)
  assume "\<not> has_nm p"
  then show ?thesis using JObj by (simp add: has_nm_def count_placement_def)
next
  case (JArr xs)
  then show ?thesis by (cases "JStr ''nm'' \<in> set xs") (simp_all add: count_placement_def)
next
  case (JStr s)
  then show ?thesis by (cases "substring ''nm'' s") (simp_all add: count_placement_def)
qed (simp_all add: count_placement_def)

lemma count_placements_lacks_nm:
  "p \<in> set ps \<Longrightarrow> \<not> has_nm p \<Longrightarrow> \<exists>e. count_placements u index ps st = Inl e"
proof (induction ps arbitrary: st)
  case Nil
  then show ?case by simp
next
  case (Cons q ps)
  show ?case
  proof (cases "count_placement u index q st")
    case (Inl e)
    then show ?thesis by simp
  next
    case (Inr st')
    then have "q \<noteq> p" using count_placement_lacks_nm[OF Cons.prems(2), of u index st] by auto
    then have "p \<in> set ps" using Cons.prems(1) by simp
    from Cons.IH[OF this Cons.prems(2), of st'] show ?thesis using Inr by simp
  qed
qed

lemma rewrite_version: "py_getitem jplace ''version'' \<noteq> Inr (JNum 3) \<Longrightarrow> \<exists>e. rewrite u jplace infos = Inl e"
  by (cases "py_getitem jplace ''version''") (auto simp: rewrite_def)

lemma rewrite_lacks_nm:
  assumes "p \<in> set (placements_of jplace)" and "\<not> has_nm p"
  shows "\<exists>e. rewrite u jplace infos = Inl e"
proof (cases "py_getitem jplace ''version'' = Inr (JNum 3)")
  case False
  then show ?thesis by (rule rewrite_version)
next
  case True
  from assms(1) obtain ps where ps: "py_getitem jplace ''placements'' = Inr (JArr ps)" and mem: "p \<in> set ps"
    by (cases "py_getitem jplace ''placements''")
       (auto simp: placements_of_def split: json.splits)
  from count_placements_lacks_nm[OF mem assms(2), of u "name_to_info infos" "([], [])"]
  obtain e where "count_placements u (name_to_info infos) ps ([], []) = Inl e" by blast
  then show ?thesis using True ps by (simp add: rewrite_def)
qed

text \<open>
  C6: if the version field of the placement document is not 3 (or is missing), or some
  placement lacks an \<open>nm\<close> field, the rewrite fails with an error and the output stream
  is as it was; and whenever the rewrite fails, on any error path, nothing has been
  written to the output stream.
\<close>

theorem write_jplace_fatal_no_output:
  "(py_getitem jplace ''version'' \<noteq> Inr (JNum 3) \<or> (\<exists>p \<in> set (placements_of jplace). \<not> has_nm p)
      \<longrightarrow> (\<exists>e. write_jplace_from_infos un_orfm_name jplace infos output_jplace_io
                  = (Inl e, output_jplace_io)))
   \<and> (\<forall>e out'. write_jplace_from_infos un_orfm_name jplace infos output_jplace_io = (Inl e, out')
         \<longrightarrow> out' = output_jplace_io)"
proof (intro conjI impI allI)
  assume "py_getitem jplace ''version'' \<noteq> Inr (JNum 3) \<or> (\<exists>p \<in> set (placements_of jplace). \<not> has_nm p)"
  then obtain e where "rewrite un_orfm_name jplace infos = Inl e"
    using rewrite_version rewrite_lacks_nm by blast
  then show "\<exists>e. write_jplace_from_infos un_orfm_name jplace infos output_jplace_io
                  = (Inl e, output_jplace_io)"
    by (simp add: write_jplace_from_infos_def)
next
  fix e out'
  assume "write_jplace_from_infos un_orfm_name jplace infos output_jplace_io = (Inl e, out')"
  then show "out' = output_jplace_io"
    by (cases "rewrite un_orfm_name jplace infos") (auto simp: write_jplace_from_infos_def)
qed

text \<open>
  The definitions a concrete evaluation of the rewrite unfolds.
\<close>

lemmas jplace_eval = write_jplace_from_infos_def rewrite_def count_placement_def name_to_info_def
  real_name_def another_regex_sub_def strip_frame_def digit_def

text \<open>
  C6 at a document of version 2 and at a document of version 3 with a placement that has no
  \<open>nm\<close> field: both fail and leave the output stream as it was.
\<close>

theorem write_jplace_fatal_no_output_witness:
  "write_jplace_from_infos (\<lambda>n. n)
      (JObj [(''version'', JNum 2), (''placements'', JArr [])]) [] [JNull]
     = (Inl VersionException, [JNull])
   \<and> write_jplace_from_infos (\<lambda>n. n)
      (JObj [(''version'', JNum 3), (''placements'', JArr [JObj [(''p'', JArr [])]])]) [] [JNull]
     = (Inl FormatException, [JNull])"
proof -
  let ?d2 = "JObj [(''version'', JNum 2), (''placements'', JArr [])]"
  let ?d3 = "JObj [(''version'', JNum 3), (''placements'', JArr [JObj [(''p'', JArr [])]])]"
  have v: "py_getitem ?d2 ''version'' \<noteq> Inr (JNum 3)" by simp
  have n: "\<exists>p \<in> set (placements_of ?d3). \<not> has_nm p" by (simp add: placements_of_def has_nm_def)
  from write_jplace_fatal_no_output[of ?d2 "\<lambda>n. n" "[]" "[JNull]"] v
  obtain e2 where e2: "write_jplace_from_infos (\<lambda>n. n) ?d2 [] [JNull] = (Inl e2, [JNull])" by blast
  from write_jplace_fatal_no_output[of ?d3 "\<lambda>n. n" "[]" "[JNull]"] n
  obtain e3 where e3: "write_jplace_from_infos (\<lambda>n. n) ?d3 [] [JNull] = (Inl e3, [JNull])" by blast
  have "fst (write_jplace_from_infos (\<lambda>n. n) ?d2 [] [JNull]) = Inl VersionException"
    by (simp add: jplace_eval)
  then have "e2 = VersionException" using e2 by simp
  moreover have "fst (write_jplace_from_infos (\<lambda>n. n) ?d3 [] [JNull]) = Inl FormatException"
    by (simp add: jplace_eval)
  then have "e3 = FormatException" using e3 by simp
  ultimately show ?thesis using e2 e3 by simp
qed

subsection \<open>The shape and the multiplicities of the rewritten document\<close>

lemmas multiplicity_eval = total_multiplicity_def placement_entries_def placement_multiplicity_def

text \<open>
  C3: the rewritten document should have the shape of the input, with \<open>placements\<close> an
  array. On a document with one placement the other top-level fields pass through and
  the one new placement has its \<open>nm\<close> and \<open>p\<close> fields, but \<open>placements\<close> is the
  dictionary \<open>new_placements\<close> itself, keyed by the sequence, not an array: the method
  rejects its own output, since iterating the dictionary yields the key \<open>ACGT\<close>, in which
  \<open>nm\<close> does not occur.
\<close>

theorem write_jplace_placements_object:
  "write_jplace_from_infos (\<lambda>n. n)
     (JObj [(''version'', JNum 3),
            (''placements'',
               JArr [JObj [(''p'', JArr [JArr [JNum 0, JNum 1]]),
                           (''nm'', JArr [JArr [JStr ''r1_1'', JNum 2]])]]),
            (''tree'', JStr ''(A,B);'')])
     [\<lparr>info_seq = ''ACGT'', info_count = 1, info_taxonomy = [], info_names = [''r1''],
       info_coverage = 1, info_aligned_lengths = [4]\<rparr>] []
   = (Inr (),
      [JObj [(''version'', JNum 3),
             (''placements'',
                JObj [(''ACGT'', JObj [(''nm'', JArr [JArr [JStr ''ACGT'', JNum 2]]),
                                       (''p'', JArr [JArr [JNum 0, JNum 1]])])]),
             (''tree'', JStr ''(A,B);'')]])
   \<and> rewrite (\<lambda>n. n)
       (JObj [(''version'', JNum 3),
             (''placements'',
                JObj [(''ACGT'', JObj [(''nm'', JArr [JArr [JStr ''ACGT'', JNum 2]]),
                                       (''p'', JArr [JArr [JNum 0, JNum 1]])])]),
             (''tree'', JStr ''(A,B);'')])
       [\<lparr>info_seq = ''ACGT'', info_count = 1, info_taxonomy = [], info_names = [''r1''],
         info_coverage = 1, info_aligned_lengths = [4]\<rparr>]
     = Inl FormatException"
  by (simp add: jplace_eval)

text \<open>
  C2 as stated: on every accepted document the multiplicities of the output add up to those
  of the input. The OTU below has the reads \<open>a\<close> and \<open>b\<close>; the document places only
  \<open>b\<close>, with multiplicity 2. The read \<open>b\<close> is in the index and the document is
  accepted, but \<open>b\<close> is not the first read of its OTU, so the OTU gets no example
  placement and no entry in the output: 2 goes in, 0 comes out.
\<close>

theorem write_jplace_multiplicity_lost_counterexample:
  "write_jplace_from_infos (\<lambda>n. n)
     (JObj [(''version'', JNum 3),
            (''placements'',
               JArr [JObj [(''p'', JArr [JArr [JNum 0, JNum 1]]),
                           (''nm'', JArr [JArr [JStr ''b_1'', JNum 2]])]])])
     [\<lparr>info_seq = ''ACGT'', info_count = 2, info_taxonomy = [], info_names = [''a'', ''b''],
       info_coverage = 2, info_aligned_lengths = [4, 4]\<rparr>] []
   = (Inr (), [JObj [(''version'', JNum 3), (''placements'', JObj [])]])
   \<and> total_multiplicity
       (JObj [(''version'', JNum 3),
            (''placements'',
               JArr [JObj [(''p'', JArr [JArr [JNum 0, JNum 1]]),
                           (''nm'', JArr [JArr [JStr ''b_1'', JNum 2]])]])]) = 2
   \<and> total_multiplicity (JObj [(''version'', JNum 3), (''placements'', JObj [])]) = 0"
  by (simp add: jplace_eval multiplicity_eval)

subsection \<open>Counts under \<open>setitem\<close>\<close>

lemma nice_setitem: "nice d \<Longrightarrow> nice (setitem k (JNum x) d)"
  unfolding nice_def using distinct_setitem[of d k "JNum x"] set_setitem[of d k "JNum x"] by auto

lemma total_setitem:
  "distinct (map fst d) \<Longrightarrow> total (setitem k (JNum (num_at d k + c)) d) = total d + c"
proof (induction d)
  case Nil
  then show ?case by (simp add: total_def num_at_def num_of_def)
next
  case (Cons q d)
  obtain k' v' where q: "q = (k', v')" by (cases q)
  show ?case
  proof (cases "k' = k")
    case True
    then show ?thesis using q by (simp add: total_def num_at_def num_of_def)
  next
    case False
    have "num_at (q # d) k = num_at d k" using False q by (simp add: num_at_def)
    moreover have "total (setitem k (JNum (num_at d k + c)) d) = total d + c"
      using Cons by simp
    ultimately show ?thesis using False q by (simp add: total_def)
  qed
qed

lemma nice_lookup: "nice d \<Longrightarrow> map_of d k = Some v \<Longrightarrow> v = JNum (num_at d k)"
  by (auto simp: nice_def num_at_def num_of_def dest!: map_of_SomeD)

subsection \<open>One entry, one placement, all placements\<close>

lemma count_name_wf:
  assumes r: "count_name u index p (JArr [JStr n, JNum c]) (stc, sep) = Inr (stc', sep')"
    and nice: "nice stc"
  shows "\<exists>i. map_of index (real_name u n) = Some i
       \<and> stc' = setitem (info_seq i) (JNum (num_at stc (info_seq i) + c)) stc
       \<and> (if first_read i (real_name u n) then \<exists>pv. sep' = setitem (info_seq i) pv sep
          else sep' = sep)"
proof (cases "map_of index (real_name u n)")
  case None
  then show ?thesis using r by simp
next
  case (Some i)
  define new where "new = JNum (num_at stc (info_seq i) + c)"
  have new: "(case map_of stc (info_seq i) of None \<Rightarrow> Inr (JNum c) | Some old \<Rightarrow> py_iadd old (JNum c))
              = Inr new"
  proof (cases "map_of stc (info_seq i)")
    case None
    then show ?thesis by (simp add: new_def num_at_def)
  next
    case (Some old)
    then have "old = JNum (num_at stc (info_seq i))" using nice by (rule nice_lookup[rotated])
    then obtain a where a: "old = JNum a" "a = num_at stc (info_seq i)" by blast
    show ?thesis using Some a by (simp add: new_def)
  qed
  show ?thesis
  proof (cases "info_names i")
    case Nil
    then show ?thesis using r Some new by simp
  next
    case (Cons f rest)
    show ?thesis
    proof (cases "real_name u n = f")
      case True
      then have fr: "first_read i (real_name u n)" using Cons by (simp add: first_read_def)
      show ?thesis
      proof (cases "py_getitem p ''p''")
        case (Inl e)
        then show ?thesis using r Some new Cons True by simp
      next
        case (Inr pv)
        then have "stc' = setitem (info_seq i) new stc" "sep' = setitem (info_seq i) pv sep"
          using r Some new Cons True by simp_all
        then show ?thesis using Some fr by (auto simp: new_def)
      qed
    next
      case False
      then have fr: "\<not> first_read i (real_name u n)" using Cons by (simp add: first_read_def)
      have "stc' = setitem (info_seq i) new stc" "sep' = sep"
        using r Some new Cons False by simp_all
      then show ?thesis using Some fr by (auto simp: new_def)
    qed
  qed
qed

lemma tracks_count_name:
  assumes t: "tracks u index N st"
    and r: "count_name u index p (JArr [JStr n, JNum c]) st = Inr st'"
  shows "tracks u index (N @ [n]) st' \<and> total (fst st') = total (fst st) + c"
proof -
  obtain stc sep where st: "st = (stc, sep)" by (cases st)
  obtain stc' sep' where st': "st' = (stc', sep')" by (cases st')
  have nice: "nice stc" and dsep: "distinct (map fst sep)" and sub: "fst ` set sep \<subseteq> fst ` set stc"
    and src: "\<forall>k \<in> fst ` set stc. \<exists>n \<in> set N. \<exists>i. map_of index (real_name u n) = Some i \<and> info_seq i = k"
    and fst: "\<forall>n \<in> set N. \<forall>i. map_of index (real_name u n) = Some i \<longrightarrow>
        first_read i (real_name u n) \<longrightarrow> info_seq i \<in> fst ` set sep"
    using t st by (simp_all add: tracks_def)
  from count_name_wf[OF r[unfolded st st'] nice] obtain i where
    i: "map_of index (real_name u n) = Some i"
    and c: "stc' = setitem (info_seq i) (JNum (num_at stc (info_seq i) + c)) stc"
    and e: "if first_read i (real_name u n) then \<exists>pv. sep' = setitem (info_seq i) pv sep
          else sep' = sep"
    by blast
  have kc: "fst ` set stc' = insert (info_seq i) (fst ` set stc)" using c by (simp add: keys_setitem)
  have ke: "fst ` set sep \<subseteq> fst ` set sep' \<and> fst ` set sep' \<subseteq> insert (info_seq i) (fst ` set sep)
    \<and> distinct (map fst sep') \<and> (first_read i (real_name u n) \<longrightarrow> info_seq i \<in> fst ` set sep')"
  proof (cases "first_read i (real_name u n)")
    case True
    then obtain pv where "sep' = setitem (info_seq i) pv sep" using e by auto
    then show ?thesis using dsep by (simp add: keys_setitem distinct_setitem subset_insertI)
  next
    case False
    then have "sep' = sep" using e by simp
    then show ?thesis using dsep False by auto
  qed
  have 1: "nice stc'" using c nice by (simp add: nice_setitem)
  have 2: "fst ` set sep' \<subseteq> fst ` set stc'" proof -
    have "fst ` set sep' \<subseteq> insert (info_seq i) (fst ` set sep)" using ke by blast
    also have "\<dots> \<subseteq> insert (info_seq i) (fst ` set stc)" using sub by blast
    finally show ?thesis unfolding kc .
  qed
  have 3: "\<forall>k \<in> fst ` set stc'. \<exists>m \<in> set (N @ [n]). \<exists>j. map_of index (real_name u m) = Some j \<and> info_seq j = k"
  proof
    fix k assume "k \<in> fst ` set stc'"
    then have "k = info_seq i \<or> k \<in> fst ` set stc" using kc by auto
    then show "\<exists>m \<in> set (N @ [n]). \<exists>j. map_of index (real_name u m) = Some j \<and> info_seq j = k"
    proof
      assume "k = info_seq i"
      then show ?thesis using i by auto
    next
      assume "k \<in> fst ` set stc"
      then obtain m j where "m \<in> set N" "map_of index (real_name u m) = Some j" "info_seq j = k"
        using src by blast
      then show ?thesis by auto
    qed
  qed
  have 4: "\<forall>m \<in> set (N @ [n]). \<forall>j. map_of index (real_name u m) = Some j \<longrightarrow>
        first_read j (real_name u m) \<longrightarrow> info_seq j \<in> fst ` set sep'"
  proof (intro ballI allI impI)
    fix m j assume m: "m \<in> set (N @ [n])" and j: "map_of index (real_name u m) = Some j"
      and f: "first_read j (real_name u m)"
    show "info_seq j \<in> fst ` set sep'"
    proof (cases "m \<in> set N")
      case True
      then have "info_seq j \<in> fst ` set sep" using fst j f by blast
      then show ?thesis using ke by blast
    next
      case False
      then have "m = n" using m by simp
      then have "j = i" using i j by simp
      then show ?thesis using ke f \<open>m = n\<close> by simp
    qed
  qed
  have 5: "total stc' = total stc + c" unfolding c using nice by (intro total_setitem) (simp add: nice_def)
  show ?thesis unfolding st st' tracks_def using 1 ke 2 3 4 5 by simp
qed

lemma well_formed_entryE:
  assumes "well_formed_entry e"
  obtains n c where "e = JArr [JStr n, JNum c]"
  using assms by (rule well_formed_entry.elims(2))

lemma tracks_count_names:
  "list_all well_formed_entry es \<Longrightarrow> tracks u index N st \<Longrightarrow>
   count_names u index p es st = Inr st' \<Longrightarrow>
   tracks u index (N @ concat (map entry_names es)) st'
   \<and> total (fst st') = total (fst st) + sum_list (map multiplicity es)"
proof (induction es arbitrary: N st)
  case Nil
  then show ?case by simp
next
  case (Cons e es)
  from Cons.prems(1) have "well_formed_entry e" by simp
  then obtain n c where e: "e = JArr [JStr n, JNum c]" by (rule well_formed_entryE)
  obtain st1 where s1: "count_name u index p e st = Inr st1"
    and rest: "count_names u index p es st1 = Inr st'"
    using Cons.prems(3) by (cases "count_name u index p e st") simp_all
  from tracks_count_name[OF Cons.prems(2) s1[unfolded e]]
  have t1: "tracks u index (N @ [n]) st1" and tot1: "total (fst st1) = total (fst st) + c" by simp_all
  have wf: "list_all well_formed_entry es" using Cons.prems(1) by simp
  from Cons.IH[OF wf t1 rest]
  have "tracks u index ((N @ [n]) @ concat (map entry_names es)) st'"
    and "total (fst st') = total (fst st1) + sum_list (map multiplicity es)" by simp_all
  then show ?case using tot1 e by simp
qed

lemma tracks_count_placement:
  assumes wf: "well_formed_placement p" and t: "tracks u index N st"
    and r: "count_placement u index p st = Inr st'"
  shows "tracks u index (N @ placement_names p) st'
       \<and> total (fst st') = total (fst st) + placement_multiplicity p"
proof -
  from wf obtain es where nm: "py_getitem p ''nm'' = Inr (JArr es)"
    and wfe: "list_all well_formed_entry es"
    unfolding well_formed_placement_def
    by (cases "py_getitem p ''nm''") (auto split: json.splits)
  from nm obtain d where p: "p = JObj d" by (cases p) auto
  have "map_of d ''nm'' = Some (JArr es)" using nm p by (simp split: option.splits)
  then have "''nm'' \<in> fst ` set d" by (metis domI dom_map_of_conv_image_fst)
  then have "py_contains ''nm'' p = Inr True" using p by simp
  then have "count_names u index p es st = Inr st'"
    using r nm by (simp add: count_placement_def)
  from tracks_count_names[OF wfe t this] show ?thesis
    using nm by (simp add: placement_names_def placement_multiplicity_def)
qed

lemma tracks_count_placements:
  "list_all well_formed_placement ps \<Longrightarrow> tracks u index N st \<Longrightarrow>
   count_placements u index ps st = Inr st' \<Longrightarrow>
   tracks u index (N @ concat (map placement_names ps)) st'
   \<and> total (fst st') = total (fst st) + sum_list (map placement_multiplicity ps)"
proof (induction ps arbitrary: N st)
  case Nil
  then show ?case by simp
next
  case (Cons p ps)
  obtain st1 where s1: "count_placement u index p st = Inr st1"
    and rest: "count_placements u index ps st1 = Inr st'"
    using Cons.prems(3) by (cases "count_placement u index p st") simp_all
  have wfp: "well_formed_placement p" and wf: "list_all well_formed_placement ps"
    using Cons.prems(1) by simp_all
  from tracks_count_placement[OF wfp Cons.prems(2) s1]
  have t1: "tracks u index (N @ placement_names p) st1"
    and tot1: "total (fst st1) = total (fst st) + placement_multiplicity p" by simp_all
  from Cons.IH[OF wf t1 rest]
  have "tracks u index ((N @ placement_names p) @ concat (map placement_names ps)) st'"
    and "total (fst st') = total (fst st1) + sum_list (map placement_multiplicity ps)" by simp_all
  then show ?case using tot1 by simp
qed

subsection \<open>The new placements\<close>

lemma new_placements_ok:
  "fst ` set sep \<subseteq> fst ` set stc \<Longrightarrow>
   \<exists>np. new_placements stc sep = Inr np
       \<and> map (\<lambda>q. placement_multiplicity (snd q)) np = map (\<lambda>q. num_at stc (fst q)) sep"
proof (induction sep)
  case Nil
  then show ?case by simp
next
  case (Cons q sep)
  obtain s pv where q: "q = (s, pv)" by (cases q)
  have "s \<in> fst ` set stc" using Cons.prems q by simp
  then obtain m where m: "map_of stc s = Some m"
    by (metis domD dom_map_of_conv_image_fst)
  from Cons obtain np where
    np: "new_placements stc sep = Inr np"
      "map (\<lambda>q. placement_multiplicity (snd q)) np = map (\<lambda>q. num_at stc (fst q)) sep"
    by auto
  have "placement_multiplicity (JObj [(''nm'', JArr [JArr [JStr s, m]]), (''p'', pv)]) = num_at stc s"
    using m by (cases m) (simp_all add: placement_multiplicity_def num_at_def num_of_def)
  then show ?case using q m np by simp
qed

lemma sum_keys_total:
  assumes "distinct ks" and "distinct (map fst d)" and "set ks = fst ` set d"
  shows "(\<Sum>k\<leftarrow>ks. num_at d k) = total d"
proof -
  have "set ks = set (map fst d)" using assms(3) by simp
  then have "mset ks = mset (map fst d)"
    using set_eq_iff_mset_eq_distinct[OF assms(1,2)] by blast
  then have "mset (map (num_at d) ks) = mset (map (num_at d) (map fst d))" by (metis mset_map)
  then have "(\<Sum>k\<leftarrow>ks. num_at d k) = (\<Sum>k\<leftarrow>map fst d. num_at d k)"
    by (metis sum_mset_sum_list)
  also have "\<dots> = (\<Sum>p\<leftarrow>d. num_at d (fst p))" by (simp add: comp_def)
  also have "\<dots> = (\<Sum>p\<leftarrow>d. num_of (snd p))"
  proof (intro arg_cong[where f = sum_list] map_cong refl)
    fix p assume "p \<in> set d"
    then have "map_of d (fst p) = Some (snd p)" using assms(2) by (intro map_of_is_SomeI) simp_all
    then show "num_at d (fst p) = num_of (snd p)" by (simp add: num_at_def)
  qed
  finally show ?thesis by (simp add: total_def split_def)
qed

lemma representatives_keys:
  assumes rep: "representatives_placed u jplace infos"
    and t: "tracks u (name_to_info infos) (names_of jplace) (stc, sep)"
  shows "fst ` set stc \<subseteq> fst ` set sep"
proof
  fix k assume "k \<in> fst ` set stc"
  then obtain n i where n: "n \<in> set (names_of jplace)"
    and i: "map_of (name_to_info infos) (real_name u n) = Some i" and k: "info_seq i = k"
    using t unfolding tracks_def by auto
  from rep n i obtain n' where n': "n' \<in> set (names_of jplace)"
    and c: "case map_of (name_to_info infos) (real_name u n') of
              None \<Rightarrow> False
            | Some info' \<Rightarrow> info_seq info' = info_seq i \<and> first_read info' (real_name u n')"
    unfolding representatives_placed_def list_all_iff list_ex_iff by fastforce
  then obtain i' where i': "map_of (name_to_info infos) (real_name u n') = Some i'"
    "info_seq i' = info_seq i" "first_read i' (real_name u n')"
    by (cases "map_of (name_to_info infos) (real_name u n')") auto
  have "info_seq i' \<in> fst ` set sep" using t n' i'(1,3) unfolding tracks_def by auto
  then show "k \<in> fst ` set sep" using i'(2) k by simp
qed

lemma tracks_empty: "tracks u index [] ([], [])"
  by (simp add: tracks_def nice_def)

lemma rewrite_multiplicity:
  assumes r: "rewrite u jplace infos = Inr document"
    and wf: "well_formed jplace"
    and rep: "representatives_placed u jplace infos"
  shows "total_multiplicity document = total_multiplicity jplace"
proof -
  from wf obtain ps where ps: "py_getitem jplace ''placements'' = Inr (JArr ps)"
    and wfp: "list_all well_formed_placement ps"
    unfolding well_formed_def by (cases "py_getitem jplace ''placements''") (auto split: json.splits)
  from ps obtain members where j: "jplace = JObj members" by (cases jplace) auto
  have v: "py_getitem jplace ''version'' = Inr (JNum 3)"
    using r by (cases "py_getitem jplace ''version''") (auto simp: rewrite_def split: if_splits)
  obtain stc sep where cp: "count_placements u (name_to_info infos) ps ([], []) = Inr (stc, sep)"
    using r v ps by (cases "count_placements u (name_to_info infos) ps ([], [])")
                    (auto simp: rewrite_def)
  from tracks_count_placements[OF wfp tracks_empty cp]
  have t: "tracks u (name_to_info infos) (concat (map placement_names ps)) (stc, sep)"
    and tot: "total stc = sum_list (map placement_multiplicity ps)"
    by (simp_all add: total_def)
  have names: "names_of jplace = concat (map placement_names ps)"
    using ps by (simp add: names_of_def placements_of_def)
  have input: "total_multiplicity jplace = total stc"
    using ps tot by (simp add: total_multiplicity_def placement_entries_def)
  have sub: "fst ` set sep \<subseteq> fst ` set stc" and dsep: "distinct (map fst sep)"
    and dstc: "distinct (map fst stc)"
    using t by (simp_all add: tracks_def nice_def)
  have sup: "fst ` set stc \<subseteq> fst ` set sep"
    using representatives_keys[OF rep t[folded names]] .
  from new_placements_ok[OF sub] obtain np where
    np: "new_placements stc sep = Inr np"
      "map (\<lambda>q. placement_multiplicity (snd q)) np = map (\<lambda>q. num_at stc (fst q)) sep"
    by blast
  have doc: "document = JObj (setitem ''placements'' (JObj np) members)"
    using r v ps cp np(1) j by (simp add: rewrite_def)
  have "py_getitem document ''placements'' = Inr (JObj np)"
    unfolding doc by (simp add: map_of_setitem)
  then have "total_multiplicity document = (\<Sum>q\<leftarrow>np. placement_multiplicity (snd q))"
    by (simp add: total_multiplicity_def placement_entries_def comp_def)
  also have "\<dots> = (\<Sum>q\<leftarrow>sep. num_at stc (fst q))" using np(2) by simp
  also have "\<dots> = (\<Sum>k\<leftarrow>map fst sep. num_at stc k)" by (simp add: comp_def)
  also have "\<dots> = total stc"
    using dsep dstc sub sup by (intro sum_keys_total) auto
  finally show ?thesis using input by simp
qed

text \<open>
  C2, amended: for every placement document the rewriter accepts (it returns without an
  error, so the version is 3 and every read name is in the index), whose \<open>nm\<close> entries
  are well formed, and in which every OTU that a read of the document belongs to has its
  first contributing read among the reads of the document, exactly one document is
  written, and the sum of the multiplicities over its placements equals the sum of the
  multiplicities over all \<open>nm\<close> entries of the input document.
\<close>

theorem write_jplace_multiplicity_conserved:
  assumes "write_jplace_from_infos un_orfm_name jplace infos output_jplace_io = (Inr (), out')"
    and "well_formed jplace"
    and "representatives_placed un_orfm_name jplace infos"
  shows "\<exists>document. out' = output_jplace_io @ [document]
       \<and> total_multiplicity document = total_multiplicity jplace"
proof (cases "rewrite un_orfm_name jplace infos")
  case (Inl e)
  then show ?thesis using assms(1) by (simp add: write_jplace_from_infos_def)
next
  case (Inr document)
  then have "out' = output_jplace_io @ [document]"
    using assms(1) by (simp add: write_jplace_from_infos_def)
  moreover have "total_multiplicity document = total_multiplicity jplace"
    using Inr assms(2,3) by (rule rewrite_multiplicity)
  ultimately show ?thesis by blast
qed


text \<open>
  The amended C2 at the reads \<open>a_1\<close> with multiplicity 3 and \<open>a_2\<close> with multiplicity 2,
  both of the OTU \<open>ACGT\<close> whose only read is \<open>a\<close>: one placement with multiplicity 5.
\<close>

theorem write_jplace_multiplicity_conserved_witness:
  "write_jplace_from_infos (\<lambda>n. n)
     (JObj [(''version'', JNum 3),
            (''placements'',
               JArr [JObj [(''p'', JArr [JArr [JNum 0, JNum 1]]),
                           (''nm'', JArr [JArr [JStr ''a_1'', JNum 3]])],
                     JObj [(''p'', JArr [JArr [JNum 0, JNum 2]]),
                           (''nm'', JArr [JArr [JStr ''a_2'', JNum 2]])]])])
     [\<lparr>info_seq = ''ACGT'', info_count = 1, info_taxonomy = [], info_names = [''a''],
       info_coverage = 1, info_aligned_lengths = [4]\<rparr>] []
   = (Inr (),
      [JObj [(''version'', JNum 3),
             (''placements'',
                JObj [(''ACGT'', JObj [(''nm'', JArr [JArr [JStr ''ACGT'', JNum 5]]),
                                       (''p'', JArr [JArr [JNum 0, JNum 2]])])])]])
   \<and> well_formed
       (JObj [(''version'', JNum 3),
            (''placements'',
               JArr [JObj [(''p'', JArr [JArr [JNum 0, JNum 1]]),
                           (''nm'', JArr [JArr [JStr ''a_1'', JNum 3]])],
                     JObj [(''p'', JArr [JArr [JNum 0, JNum 2]]),
                           (''nm'', JArr [JArr [JStr ''a_2'', JNum 2]])]])])
   \<and> representatives_placed (\<lambda>n. n)
       (JObj [(''version'', JNum 3),
            (''placements'',
               JArr [JObj [(''p'', JArr [JArr [JNum 0, JNum 1]]),
                           (''nm'', JArr [JArr [JStr ''a_1'', JNum 3]])],
                     JObj [(''p'', JArr [JArr [JNum 0, JNum 2]]),
                           (''nm'', JArr [JArr [JStr ''a_2'', JNum 2]])]])])
       [\<lparr>info_seq = ''ACGT'', info_count = 1, info_taxonomy = [], info_names = [''a''],
         info_coverage = 1, info_aligned_lengths = [4]\<rparr>]
   \<and> total_multiplicity
       (JObj [(''version'', JNum 3),
             (''placements'',
                JObj [(''ACGT'', JObj [(''nm'', JArr [JArr [JStr ''ACGT'', JNum 5]]),
                                       (''p'', JArr [JArr [JNum 0, JNum 2]])])])]) = 5"
proof -
  let ?doc = "JObj [(''version'', JNum 3),
            (''placements'',
               JArr [JObj [(''p'', JArr [JArr [JNum 0, JNum 1]]),
                           (''nm'', JArr [JArr [JStr ''a_1'', JNum 3]])],
                     JObj [(''p'', JArr [JArr [JNum 0, JNum 2]]),
                           (''nm'', JArr [JArr [JStr ''a_2'', JNum 2]])]])]"
  let ?infos = "[\<lparr>info_seq = ''ACGT'', info_count = 1, info_taxonomy = [], info_names = [''a''],
       info_coverage = 1, info_aligned_lengths = [4]\<rparr>]"
  let ?out = "JObj [(''version'', JNum 3),
             (''placements'',
                JObj [(''ACGT'', JObj [(''nm'', JArr [JArr [JStr ''ACGT'', JNum 5]]),
                                       (''p'', JArr [JArr [JNum 0, JNum 2]])])])]"
  have w: "write_jplace_from_infos (\<lambda>n. n) ?doc ?infos [] = (Inr (), [?out])"
    by (simp add: jplace_eval)
  have wf: "well_formed ?doc"
    by (simp add: well_formed_def well_formed_placement_def)
  have rep: "representatives_placed (\<lambda>n. n) ?doc ?infos"
    by (simp add: representatives_placed_def names_of_def placements_of_def placement_names_def
        first_read_def name_to_info_def real_name_def another_regex_sub_def strip_frame_def
        digit_def)
  from write_jplace_multiplicity_conserved[OF w wf rep]
  have "total_multiplicity ?out = total_multiplicity ?doc" by simp
  moreover have "total_multiplicity ?doc = 5" by (simp add: multiplicity_eval)
  ultimately have "total_multiplicity ?out = 5" by simp
  then show ?thesis using w wf rep by blast
qed

end
